theory Spec2Isabelle
  imports Main "HOL-Library.Word"
begin

unbundle bit_operations_syntax

section \<open>Machine types and constants of miner.cpp\<close>

type_synonym u8 = "8 word"
type_synonym u32 = "32 word"
type_synonym u64 = "64 word"


section \<open>Big integers\<close>



text \<open>
  \<^verbatim>\<open>z->_mp_d[0]++\<close> increments the least significant 64-bit limb in place, without
  carrying into the next limb.  (It is only applied to nonzero values here.)
\<close>

definition mp_d0_incr :: "int \<Rightarrow> int" where
  "mp_d0_incr z = z - z mod 2 ^ 64 + (z mod 2 ^ 64 + 1) mod 2 ^ 64"

section \<open>getTargetFromBlock\<close>

text \<open>
  The double SHA-256 of the header is computed by code outside this file; the model
  starts from the digest \<open>powHash\<close> (32 bytes).  The loop over \<open>i = 0 .. 255\<close> shifts the
  target left and adds bit \<open>i % 8\<close> of byte \<open>i / 8\<close>.
\<close>

definition zeroesBeforeHashInPrime :: nat where
  "zeroesBeforeHashInPrime = 8"

definition powHash_bit :: "u8 list \<Rightarrow> nat \<Rightarrow> bool" where
  "powHash_bit powHash i \<longleftrightarrow> (drop_bit (i mod 8) (powHash ! (i div 8))) AND 1 \<noteq> 0"

fun target_hash_loop :: "u8 list \<Rightarrow> nat list \<Rightarrow> int \<Rightarrow> int" where
  "target_hash_loop powHash [] z = z"
| "target_hash_loop powHash (i # is) z =
     target_hash_loop powHash is
       (let z' = z * 2 ^ 1 in if powHash_bit powHash i then mp_d0_incr z' else z')"

definition getTargetFromBlock :: "u8 list \<Rightarrow> u32 \<Rightarrow> int" where
  "getTargetFromBlock powHash searchBits =
     (let z0 = 1;
          z1 = z0 * 2 ^ zeroesBeforeHashInPrime;
          z2 = target_hash_loop powHash [0..<256] z1;
          trailingZeros = searchBits - 1 - of_nat zeroesBeforeHashInPrime - 256
      in z2 * 2 ^ unat trailingZeros)"

text \<open>
  The number the specification describes: the 256 digest bits read in the order
  \<open>i = 0 .. 255\<close>, the first one most significant.
\<close>

definition hash_value :: "u8 list \<Rightarrow> int" where
  "hash_value h = (\<Sum>i<256. if bit (h ! (i div 8)) (i mod 8) then 2 ^ (255 - i) else 0)"

text \<open>The same reading for any number of bits.\<close>

definition bits_msb_first :: "(nat \<Rightarrow> bool) \<Rightarrow> nat \<Rightarrow> int" where
  "bits_msb_first b n = (\<Sum>i<n. if b i then 2 ^ (n - 1 - i) else 0)"

section \<open>The per-block remainder (miningProcess, lines 426-431)\<close>




text \<open>A digest for which the remainder leaves the interval below the primorial.\<close>

definition digest_low_residue :: "u8 list" where
  "digest_low_residue = [0, 0, 0, 128, 95, 250, 12, 176, 141, 79, 134, 153, 115, 75, 20, 169,
     28, 240, 128, 228, 235, 134, 88, 47, 198, 250, 84, 119, 144, 154, 35, 13]"

section \<open>Constants of the sieve\<close>

definition riecoin_sieveBits :: nat where
  "riecoin_sieveBits = 24"

definition riecoin_sieveSize :: u32 where
  "riecoin_sieveSize = push_bit riecoin_sieveBits 1"

definition riecoin_sieveWords :: u32 where
  "riecoin_sieveWords = riecoin_sieveSize div 64"

definition max_increments :: u64 where
  "max_increments = push_bit 29 1"

definition maxiter :: u64 where
  "maxiter = max_increments div ucast riecoin_sieveSize"

definition primeTupleOffset :: "u32 list" where
  "primeTupleOffset = [0, 4, 2, 4, 2, 4]"

definition denseLimit :: u32 where
  "denseLimit = 16384"

definition OFFSET_STACK_SIZE :: int where
  "OFFSET_STACK_SIZE = 16384"

section \<open>Faults and global state\<close>

text \<open>
  The ways in which the program stops instead of returning: \<^verbatim>\<open>exit(-1)\<close>, a failed
  \<^verbatim>\<open>assert\<close>, a division by zero inside GMP, and an access outside an array or vector
  (undefined behaviour in C++, kept apart so that it is never silently a value).
\<close>

datatype fault = ProcessExit | AssertionFailed | OutOfBounds | DivisionByZero

text \<open>
  The tables and parameters that stay fixed while a block is mined (\<^verbatim>\<open>miner.parameters\<close>,
  \<^verbatim>\<open>miner.primorial\<close> and the file-level globals), and the arrays the workers update.
  A \<^verbatim>\<open>sixoff\<close> is a list of six 32-bit values.
\<close>

record miner_globals =
  primes :: "u32 list"
  inverts :: "u32 list"
  primorial :: int
  primorialNumber :: u32
  entriesPerSegment :: u32
  startingPrimeIndex :: u32
  n_dense :: u32
  n_sparse :: u32
  sieveWorkers :: int
  z_verify_target :: int
  z_verify_remainderPrimorial :: int

record sieve_state =
  offsets :: "u32 list list"
  segment_counts :: "u32 list"
  segment_hits :: "u32 list list"

section \<open>put_offsets_in_segments\<close>

text \<open>
  The loop over \<^verbatim>\<open>offsets[0 .. n_offsets)\<close>, run under the bucket lock; the list argument is
  that prefix of the offset stack.
\<close>

fun put_offsets_in_segments :: "miner_globals \<Rightarrow> u32 list \<Rightarrow> sieve_state \<Rightarrow> fault + sieve_state" where
  "put_offsets_in_segments g [] st = Inr st"
| "put_offsets_in_segments g (index # rest) st =
     (let segment = drop_bit riecoin_sieveBits index in
      if length (segment_counts st) \<le> unat segment \<or> length (segment_hits st) \<le> unat segment
      then Inl OutOfBounds
      else
        let sc = segment_counts st ! unat segment in
        if sc \<ge> entriesPerSegment g then Inl ProcessExit
        else if length (segment_hits st ! unat segment) \<le> unat sc then Inl OutOfBounds
        else put_offsets_in_segments g rest
          (st\<lparr>segment_hits := (segment_hits st)[unat segment :=
                  (segment_hits st ! unat segment)[unat sc := index - riecoin_sieveSize * segment]],
              segment_counts := (segment_counts st)[unat segment :=
                  segment_counts st ! unat segment + 1]\<rparr>))"

section \<open>update_remainders\<close>

text \<open>
  The body of the loop over the six biases: \<^verbatim>\<open>remainder += primeTupleOffset[f]; if (remainder > p)
  remainder -= p;\<close> and then \<^verbatim>\<open>pa = p - remainder; index = pa*invert; index %= p;\<close> in 64 bits.
\<close>

definition next_remainder :: "u32 \<Rightarrow> u32 \<Rightarrow> nat \<Rightarrow> u32" where
  "next_remainder p remainder f =
     (let remainder1 = remainder + primeTupleOffset ! f
      in if remainder1 > p then remainder1 - p else remainder1)"

definition bias_index :: "u32 \<Rightarrow> u32 \<Rightarrow> u32 \<Rightarrow> u64" where
  "bias_index p invert remainder =
     (let pa = (ucast (p - remainder) :: u64);
          index = pa * ucast invert
      in index mod ucast p)"

fun remainders_bias_loop ::
  "miner_globals \<Rightarrow> nat \<Rightarrow> u32 \<Rightarrow> u32 \<Rightarrow> bool \<Rightarrow> nat list \<Rightarrow> u32 \<Rightarrow> u32 list \<Rightarrow> sieve_state
     \<Rightarrow> fault + (u32 list \<times> sieve_state)" where
  "remainders_bias_loop g i p invert is_once_only [] remainder offset_stack st =
     Inr (offset_stack, st)"
| "remainders_bias_loop g i p invert is_once_only (f # fs) remainder offset_stack st =
     (let remainder2 = next_remainder p remainder f;
          index = bias_index p invert remainder2
      in if \<not> is_once_only then
           (if length (offsets st) \<le> i then Inl OutOfBounds
            else remainders_bias_loop g i p invert is_once_only fs remainder2 offset_stack
                   (st\<lparr>offsets := (offsets st)[i := (offsets st ! i)[f := ucast index]]\<rparr>))
         else if index < max_increments then
           (let stack1 = offset_stack @ [ucast index] in
            if int (length stack1) \<ge> OFFSET_STACK_SIZE then
              (case put_offsets_in_segments g stack1 st of
                 Inl e \<Rightarrow> Inl e
               | Inr st1 \<Rightarrow> remainders_bias_loop g i p invert is_once_only fs remainder2 [] st1)
            else remainders_bias_loop g i p invert is_once_only fs remainder2 stack1 st)
         else remainders_bias_loop g i p invert is_once_only fs remainder2 offset_stack st)"

text \<open>
  \<^verbatim>\<open>mpz_tdiv_ui(n, d)\<close> returns the remainder of \<open>|n|\<close> by \<open>d\<close> as an unsigned long.
\<close>

definition mpz_tdiv_ui :: "int \<Rightarrow> u32 \<Rightarrow> u64" where
  "mpz_tdiv_ui n d = of_nat (nat \<bar>n\<bar> mod unat d)"

fun update_remainders_loop ::
  "miner_globals \<Rightarrow> int \<Rightarrow> nat list \<Rightarrow> u32 list \<Rightarrow> sieve_state \<Rightarrow> fault + (u32 list \<times> sieve_state)" where
  "update_remainders_loop g tar [] offset_stack st = Inr (offset_stack, st)"
| "update_remainders_loop g tar (i # is) offset_stack st =
     (if length (primes g) \<le> i \<or> length (inverts g) \<le> i then Inl OutOfBounds
      else
        let p = primes g ! i in
        if p = 0 then Inl DivisionByZero
        else
          let remainder = (ucast (mpz_tdiv_ui tar p) :: u32);
              is_once_only = (ucast p \<ge> max_increments);
              invert = inverts g ! i
          in case remainders_bias_loop g i p invert is_once_only [0..<6] remainder offset_stack st of
               Inl e \<Rightarrow> Inl e
             | Inr (stack1, st1) \<Rightarrow> update_remainders_loop g tar is stack1 st1)"

definition update_remainders :: "miner_globals \<Rightarrow> u32 \<Rightarrow> u32 \<Rightarrow> sieve_state \<Rightarrow> fault + sieve_state" where
  "update_remainders g start_i end_i st =
     (let tar = z_verify_target g + z_verify_remainderPrimorial g in
      case update_remainders_loop g tar [unat start_i..<unat end_i] [] st of
        Inl e \<Rightarrow> Inl e
      | Inr (offset_stack, st1) \<Rightarrow>
          if length offset_stack > 0 then put_offsets_in_segments g offset_stack st1 else Inr st1)"


section \<open>Predicates used in the statements\<close>

text \<open>
  The shape of the bucket arrays allocated by miningProcess (\<open>maxiter\<close> buckets of
  \<open>entriesPerSegment\<close> entries) and the capacity invariant.
\<close>

definition buckets_wf :: "miner_globals \<Rightarrow> sieve_state \<Rightarrow> bool" where
  "buckets_wf g st \<longleftrightarrow>
     length (segment_counts st) = unat maxiter \<and> length (segment_hits st) = unat maxiter \<and>
     (\<forall>k < unat maxiter. length (segment_hits st ! k) = unat (entriesPerSegment g))"

definition buckets_inv :: "miner_globals \<Rightarrow> sieve_state \<Rightarrow> bool" where
  "buckets_inv g st \<longleftrightarrow> (\<forall>k < unat maxiter. segment_counts st ! k \<le> entriesPerSegment g)"

text \<open>The cumulative bias of tuple member \<open>f\<close>: the sum of \<open>primeTupleOffset[0..f]\<close>.\<close>

definition cumulativeBias :: "nat \<Rightarrow> int" where
  "cumulativeBias f = sum_list (map uint (take (Suc f) primeTupleOffset))"

text \<open>
  What miningInit establishes for the primes that are not factors of the primorial: each has
  its inverse of the primorial in \<open>inverts\<close> (\<^verbatim>\<open>mpz_invert\<close>), is at least 5, and is a
  32-bit prime, hence at most \<open>2^32 - 5\<close>.
\<close>

definition tables_valid :: "miner_globals \<Rightarrow> bool" where
  "tables_valid g \<longleftrightarrow>
     (\<forall>i. unat (primorialNumber g) \<le> i \<and> i < length (primes g) \<longrightarrow>
        i < length (inverts g) \<and> 4 \<le> primes g ! i \<and> unat (primes g ! i) + 4 < 2 ^ 32 \<and>
        (primorial g * uint (inverts g ! i)) mod uint (primes g ! i) = 1)"

text \<open>Every resident prime has its row of six offsets.\<close>

definition offsets_wf :: "miner_globals \<Rightarrow> sieve_state \<Rightarrow> bool" where
  "offsets_wf g st \<longleftrightarrow>
     (\<forall>i < length (primes g). ucast (primes g ! i) < max_increments \<longrightarrow>
        i < length (offsets st) \<and> length (offsets st ! i) = 6)"

text \<open>The offset stack between two pushes: filtered entries, not yet full.\<close>

definition stack_ok :: "u32 list \<Rightarrow> bool" where
  "stack_ok stack \<longleftrightarrow>
     (\<forall>x \<in> set stack. unat x < 2 ^ 29) \<and> int (length stack) < OFFSET_STACK_SIZE"

text \<open>\<open>v\<close> is the least non-negative \<open>x\<close> with \<open>base + x * P + bias f\<close> divisible by \<open>p\<close>.\<close>

definition offset_solves :: "int \<Rightarrow> int \<Rightarrow> u32 \<Rightarrow> nat \<Rightarrow> u32 \<Rightarrow> bool" where
  "offset_solves base P p f v \<longleftrightarrow>
     (base + uint v * P + cumulativeBias f) mod uint p = 0 \<and>
     (\<forall>y\<ge>0. (base + y * P + cumulativeBias f) mod uint p = 0 \<longrightarrow> uint v \<le> y)"

text \<open>A small configuration: primorial \<open>2 * 3\<close>, sieving primes 5, 7, 11 and 13.\<close>

definition cfg6 :: miner_globals where
  "cfg6 = \<lparr>primes = [2, 3, 5, 7, 11, 13], inverts = [0, 0, 1, 6, 2, 11], primorial = 6,
     primorialNumber = 2, entriesPerSegment = 4, startingPrimeIndex = 2, n_dense = 4, n_sparse = 0,
     sieveWorkers = 1, z_verify_target = 1000, z_verify_remainderPrimorial = 5\<rparr>"

definition st6 :: sieve_state where
  "st6 = \<lparr>offsets = replicate 6 (replicate 6 0), segment_counts = replicate 32 0,
     segment_hits = replicate 32 (replicate 4 0)\<rparr>"

section \<open>The TYPE_MOD dispatch of the master (miningProcess, lines 443-455)\<close>

text \<open>
  The loop \<^verbatim>\<open>for (base = primeIndex; base < nPrimes; base += incr)\<close> pushes one job
  \<open>(start, end)\<close> per round and counts it in \<open>n_workers\<close>.  Nothing bounds the number of
  rounds, so the loop is a partial function: \<open>None\<close> means that it never ends.
  Afterwards the master pops one token from the done queue per counted job.
\<close>

partial_function (option) mod_dispatch_loop ::
  "u32 \<Rightarrow> u32 \<Rightarrow> u32 \<Rightarrow> (u32 \<times> u32) list \<Rightarrow> int \<Rightarrow> ((u32 \<times> u32) list \<times> int) option" where
  "mod_dispatch_loop nPrimes incr base queue n_workers =
     (if base < nPrimes then
        mod_dispatch_loop nPrimes incr (base + incr)
          (queue @ [(base, min nPrimes (base + incr))]) (n_workers + 1)
      else Some (queue, n_workers))"

definition master_mod_dispatch :: "u32 \<Rightarrow> u32 \<Rightarrow> ((u32 \<times> u32) list \<times> nat) option" where
  "master_mod_dispatch nPrimes primeIndex =
     (let incr = nPrimes div 128 in
      case mod_dispatch_loop nPrimes incr primeIndex [] 0 of
        None \<Rightarrow> None
      | Some (queue, n_workers) \<Rightarrow> Some (queue, nat n_workers))"

section \<open>Sieve bitmaps\<close>

text \<open>
  A sieve is an array of \<open>sieveSize / 8\<close> bytes; it is modelled as a store from byte
  offsets to bytes.  Position \<open>n\<close> is bit \<open>n & 7\<close> of byte \<open>n >> 3\<close>.
\<close>

type_synonym sieve_bitmap = "nat \<Rightarrow> u8"

definition sieve_set_bit :: "sieve_bitmap \<Rightarrow> u32 \<Rightarrow> sieve_bitmap" where
  "sieve_set_bit sieve old =
     sieve (unat (drop_bit 3 old) := sieve (unat (drop_bit 3 old)) OR push_bit (unat (old AND 7)) 1)"

definition sieve_bit :: "sieve_bitmap \<Rightarrow> nat \<Rightarrow> bool" where
  "sieve_bit sieve n \<longleftrightarrow> bit (sieve (n div 8)) (n mod 8)"

text \<open>Running a step that may not return (\<open>None\<close>) or may stop with a fault.\<close>

definition bind_run :: "(fault + 'a) option \<Rightarrow> ('a \<Rightarrow> (fault + 'b) option) \<Rightarrow> (fault + 'b) option" where
  "bind_run m k = (case m of None \<Rightarrow> None | Some (Inl e) \<Rightarrow> Some (Inl e) | Some (Inr x) \<Rightarrow> k x)"

section \<open>The pending ring\<close>

definition PENDING_SIZE :: nat where
  "PENDING_SIZE = 16"

definition init_pending :: "u32 list" where
  "init_pending = replicate PENDING_SIZE 0"

definition add_to_pending ::
  "sieve_bitmap \<Rightarrow> u32 list \<Rightarrow> u32 \<Rightarrow> u32 \<Rightarrow> fault + (sieve_bitmap \<times> u32 list \<times> u32)" where
  "add_to_pending sieve pending pos ent =
     (let old = pending ! unat pos in
      if old \<noteq> 0 \<and> \<not> old < riecoin_sieveSize then Inl AssertionFailed
      else
        let sieve1 = (if old \<noteq> 0 then sieve_set_bit sieve old else sieve);
            pending1 = pending[unat pos := ent];
            pos1 = (pos + 1) AND 0xf
        in Inr (sieve1, pending1, pos1))"

fun flush_pending :: "sieve_bitmap \<Rightarrow> u32 list \<Rightarrow> fault + sieve_bitmap" where
  "flush_pending sieve [] = Inr sieve"
| "flush_pending sieve (old # rest) =
     (if old \<noteq> 0 then
        (if old < riecoin_sieveSize then flush_pending (sieve_set_bit sieve old) rest
         else Inl AssertionFailed)
      else flush_pending sieve rest)"

section \<open>process_sieve\<close>

partial_function (option) sieve_pending_while ::
  "u32 \<Rightarrow> sieve_bitmap \<Rightarrow> u32 list \<Rightarrow> u32 \<Rightarrow> u32
     \<Rightarrow> (fault + sieve_bitmap \<times> u32 list \<times> u32 \<times> u32) option" where
  "sieve_pending_while p sieve pending pending_pos off =
     (if off < riecoin_sieveSize then
        (case add_to_pending sieve pending pending_pos off of
           Inl e \<Rightarrow> Some (Inl e)
         | Inr (sieve1, pending1, pos1) \<Rightarrow> sieve_pending_while p sieve1 pending1 pos1 (off + p))
      else Some (Inr (sieve, pending, pending_pos, off)))"

fun process_sieve_biases ::
  "u32 \<Rightarrow> nat \<Rightarrow> nat list \<Rightarrow> sieve_bitmap \<Rightarrow> u32 list \<Rightarrow> u32 \<Rightarrow> u32 list list
     \<Rightarrow> (fault + sieve_bitmap \<times> u32 list \<times> u32 \<times> u32 list list) option" where
  "process_sieve_biases p pno [] sieve pending pending_pos offs =
     Some (Inr (sieve, pending, pending_pos, offs))"
| "process_sieve_biases p pno (f # fs) sieve pending pending_pos offs =
     bind_run (sieve_pending_while p sieve pending pending_pos (offs ! pno ! f))
       (\<lambda>(sieve1, pending1, pos1, off1).
          process_sieve_biases p pno fs sieve1 pending1 pos1
            (offs[pno := (offs ! pno)[f := off1 - riecoin_sieveSize]]))"

fun process_sieve_primes ::
  "miner_globals \<Rightarrow> nat list \<Rightarrow> sieve_bitmap \<Rightarrow> u32 list \<Rightarrow> u32 \<Rightarrow> u32 list list
     \<Rightarrow> (fault + sieve_bitmap \<times> u32 list \<times> u32 \<times> u32 list list) option" where
  "process_sieve_primes g [] sieve pending pending_pos offs =
     Some (Inr (sieve, pending, pending_pos, offs))"
| "process_sieve_primes g (i # is) sieve pending pending_pos offs =
     (let pno = unat (of_nat i + startingPrimeIndex g :: u32) in
      if length (primes g) \<le> pno \<or> length offs \<le> pno then Some (Inl OutOfBounds)
      else
        bind_run (process_sieve_biases (primes g ! pno) pno [0..<6] sieve pending pending_pos offs)
          (\<lambda>(sieve1, pending1, pos1, offs1). process_sieve_primes g is sieve1 pending1 pos1 offs1))"

definition process_sieve ::
  "miner_globals \<Rightarrow> sieve_bitmap \<Rightarrow> u32 \<Rightarrow> u32 \<Rightarrow> u32 list list
     \<Rightarrow> (fault + sieve_bitmap \<times> u32 list list) option" where
  "process_sieve g sieve start_i end_i offs =
     bind_run (process_sieve_primes g [unat start_i..<unat end_i] sieve init_pending 0 offs)
       (\<lambda>(sieve1, pending1, pos1, offs1).
          case flush_pending sieve1 pending1 of
            Inl e \<Rightarrow> Some (Inl e)
          | Inr sieve2 \<Rightarrow> Some (Inr (sieve2, offs1)))"

section \<open>The dense stratum (miningProcess, lines 497-509)\<close>

fun silly_sort_inner :: "nat \<Rightarrow> nat list \<Rightarrow> u32 list \<Rightarrow> u32 list" where
  "silly_sort_inner i [] indexes = indexes"
| "silly_sort_inner i (j # js) indexes =
     silly_sort_inner i js
       (if indexes ! j < indexes ! i then indexes[i := indexes ! j, j := indexes ! i] else indexes)"

fun silly_sort_outer :: "nat list \<Rightarrow> u32 list \<Rightarrow> u32 list" where
  "silly_sort_outer [] indexes = indexes"
| "silly_sort_outer (i # is) indexes = silly_sort_outer is (silly_sort_inner i [i + 1..<6] indexes)"

definition silly_sort_indexes :: "u32 list \<Rightarrow> u32 list" where
  "silly_sort_indexes indexes = silly_sort_outer [0..<5] indexes"

partial_function (option) sieve_dense_while ::
  "u32 \<Rightarrow> sieve_bitmap \<Rightarrow> u32 \<Rightarrow> (fault + sieve_bitmap \<times> u32) option" where
  "sieve_dense_while p sieve off =
     (if off < riecoin_sieveSize then
        (if off < riecoin_sieveSize then sieve_dense_while p (sieve_set_bit sieve off) (off + p)
         else Some (Inl AssertionFailed))
      else Some (Inr (sieve, off)))"

fun dense_sieve_biases ::
  "u32 \<Rightarrow> nat \<Rightarrow> nat list \<Rightarrow> sieve_bitmap \<Rightarrow> u32 list list
     \<Rightarrow> (fault + sieve_bitmap \<times> u32 list list) option" where
  "dense_sieve_biases p pno [] sieve offs = Some (Inr (sieve, offs))"
| "dense_sieve_biases p pno (f # fs) sieve offs =
     bind_run (sieve_dense_while p sieve (offs ! pno ! f))
       (\<lambda>(sieve1, off1).
          dense_sieve_biases p pno fs sieve1 (offs[pno := (offs ! pno)[f := off1 - riecoin_sieveSize]]))"

fun dense_sieve_primes ::
  "miner_globals \<Rightarrow> nat list \<Rightarrow> sieve_bitmap \<Rightarrow> u32 list list
     \<Rightarrow> (fault + sieve_bitmap \<times> u32 list list) option" where
  "dense_sieve_primes g [] sieve offs = Some (Inr (sieve, offs))"
| "dense_sieve_primes g (i # is) sieve offs =
     (let pno = unat (of_nat i + startingPrimeIndex g :: u32) in
      if length (primes g) \<le> pno \<or> length offs \<le> pno then Some (Inl OutOfBounds)
      else
        let offs0 = offs[pno := silly_sort_indexes (offs ! pno)] in
        bind_run (dense_sieve_biases (primes g ! pno) pno [0..<6] sieve offs0)
          (\<lambda>(sieve1, offs1). dense_sieve_primes g is sieve1 offs1))"

section \<open>The reference sieve of claim C9\<close>

text \<open>
  Written from the claim's words: for each prime of the range and each bias, the bit of every
  offset below \<open>sieveSize\<close> is set directly, the offset advancing by the prime; afterwards
  the offset is reduced by \<open>sieveSize\<close>.  No ring, and position 0 is not special.
\<close>

fun reference_sieve_primes ::
  "miner_globals \<Rightarrow> nat list \<Rightarrow> sieve_bitmap \<Rightarrow> u32 list list
     \<Rightarrow> (fault + sieve_bitmap \<times> u32 list list) option" where
  "reference_sieve_primes g [] sieve offs = Some (Inr (sieve, offs))"
| "reference_sieve_primes g (i # is) sieve offs =
     (let pno = unat (of_nat i + startingPrimeIndex g :: u32) in
      if length (primes g) \<le> pno \<or> length offs \<le> pno then Some (Inl OutOfBounds)
      else
        bind_run (dense_sieve_biases (primes g ! pno) pno [0..<6] sieve offs)
          (\<lambda>(sieve1, offs1). reference_sieve_primes g is sieve1 offs1))"

definition reference_sieve ::
  "miner_globals \<Rightarrow> sieve_bitmap \<Rightarrow> u32 \<Rightarrow> u32 \<Rightarrow> u32 list list
     \<Rightarrow> (fault + sieve_bitmap \<times> u32 list list) option" where
  "reference_sieve g sieve start_i end_i offs =
     reference_sieve_primes g [unat start_i..<unat end_i] sieve offs"

section \<open>Predicates used in the statements about the sieve\<close>

text \<open>A quantity that decreases with every round of the inner loop, for any nonzero prime.\<close>

definition while_measure :: "u32 \<Rightarrow> u32 \<Rightarrow> nat" where
  "while_measure p off = (if unat p < 2 ^ 32 - 2 ^ 24 then 2 ^ 24 - unat off else unat off)"

text \<open>
  The relation kept between the directly marked bitmap and the bitmap behind the ring: away
  from position 0 they differ exactly by the entries waiting in the ring.
\<close>

definition ring_rel :: "sieve_bitmap \<Rightarrow> sieve_bitmap \<Rightarrow> u32 list \<Rightarrow> u32 \<Rightarrow> bool" where
  "ring_rel sv_n sv_p pending pos \<longleftrightarrow>
     length pending = 16 \<and> pos < 16 \<and> (\<forall>e \<in> set pending. e < riecoin_sieveSize) \<and>
     (\<forall>j. j \<noteq> 0 \<longrightarrow> (sieve_bit sv_n j \<longleftrightarrow> sieve_bit sv_p j \<or> (\<exists>e \<in> set pending. unat e = j)))"

text \<open>
  \<open>advanced p off off'\<close>: \<open>off'\<close> is \<open>off\<close> plus a multiple of \<open>p\<close> minus
  \<open>sieveSize\<close>, computed without wrap-around, and below \<open>p\<close>.  \<open>hit p off j\<close>: position
  \<open>j\<close> of the segment is \<open>off\<close> plus a multiple of \<open>p\<close>.
\<close>

definition advanced :: "u32 \<Rightarrow> u32 \<Rightarrow> u32 \<Rightarrow> bool" where
  "advanced p off off' \<longleftrightarrow> off' < p \<and> (\<exists>k. unat off' + 2 ^ 24 = unat off + k * unat p)"

definition hit :: "u32 \<Rightarrow> u32 \<Rightarrow> nat \<Rightarrow> bool" where
  "hit p off j \<longleftrightarrow> j < 2 ^ 24 \<and> (\<exists>i. j = unat off + i * unat p)"

text \<open>
  \<open>pno = i + startingPrimeIndex\<close> in 32 bits; the rows of a range of primes before a pass
  (in range, six entries each below the prime, the prime nonzero and below \<open>max_increments\<close>),
  their relation to the rows after the pass, and the positions the pass marks.
\<close>

definition pno_of :: "miner_globals \<Rightarrow> nat \<Rightarrow> nat" where
  "pno_of g i = unat (of_nat i + startingPrimeIndex g :: u32)"

definition rows_ok :: "miner_globals \<Rightarrow> nat list \<Rightarrow> u32 list list \<Rightarrow> bool" where
  "rows_ok g is offs \<longleftrightarrow>
     distinct (map (pno_of g) is) \<and>
     (\<forall>i \<in> set is. pno_of g i < length (primes g) \<and> pno_of g i < length offs \<and>
        length (offs ! pno_of g i) = 6 \<and> primes g ! pno_of g i \<noteq> 0 \<and>
        unat (primes g ! pno_of g i) < 2 ^ 29 \<and>
        (\<forall>v \<in> set (offs ! pno_of g i). v < primes g ! pno_of g i))"

definition rows_advanced :: "miner_globals \<Rightarrow> nat list \<Rightarrow> u32 list list \<Rightarrow> u32 list list \<Rightarrow> bool" where
  "rows_advanced g is offs offs' \<longleftrightarrow>
     length offs' = length offs \<and>
     (\<forall>q. q \<notin> pno_of g ` set is \<longrightarrow> offs' ! q = offs ! q) \<and>
     (\<forall>i \<in> set is. length (offs' ! pno_of g i) = 6 \<and>
        (\<forall>v \<in> set (offs ! pno_of g i). \<exists>v' \<in> set (offs' ! pno_of g i).
            advanced (primes g ! pno_of g i) v v') \<and>
        (\<forall>v' \<in> set (offs' ! pno_of g i). \<exists>v \<in> set (offs ! pno_of g i).
            advanced (primes g ! pno_of g i) v v'))"

definition marked_by :: "miner_globals \<Rightarrow> nat list \<Rightarrow> u32 list list \<Rightarrow> nat \<Rightarrow> bool" where
  "marked_by g is offs j \<longleftrightarrow>
     (\<exists>i \<in> set is. \<exists>v \<in> set (offs ! pno_of g i). hit (primes g ! pno_of g i) v j)"

text \<open>
  A configuration with one sparse prime, 16411, whose first offset is 0 (the base
  \<open>354 + 16057\<close> is 16411), and the offsets update_remainders computes for it and for
  \<open>cfg6\<close>.
\<close>

definition cfg_sparse :: miner_globals where
  "cfg_sparse = \<lparr>primes = [2, 3, 16411], inverts = [0, 0, 13676], primorial = 6,
     primorialNumber = 2, entriesPerSegment = 4, startingPrimeIndex = 2, n_dense = 0, n_sparse = 1,
     sieveWorkers = 1, z_verify_target = 354, z_verify_remainderPrimorial = 16057\<rparr>"

definition offs_sparse :: "u32 list list" where
  "offs_sparse = [[0, 0, 0, 0, 0, 0], [0, 0, 0, 0, 0, 0], [0, 10940, 16410, 10939, 16409, 10938]]"

definition offs6 :: "u32 list list" where
  "offs6 = [[0, 0, 0, 0, 0, 0], [0, 0, 0, 0, 0, 0], [0, 1, 4, 0, 3, 4], [4, 1, 3, 0, 2, 6],
            [3, 6, 2, 5, 1, 4], [8, 3, 7, 2, 6, 1]]"

section \<open>verify_thread: TYPE_CHECK jobs\<close>

text \<open>
  \<^verbatim>\<open>mpz_powm(r, b, e, m)\<close>: \<open>b ^ e mod |m|\<close> for a non-negative exponent; a zero modulus
  raises a division by zero; a negative exponent takes the inverse of the base modulo \<open>|m|\<close>
  and raises a division by zero when there is none.
\<close>

definition mpz_powm :: "int \<Rightarrow> int \<Rightarrow> int \<Rightarrow> fault + int" where
  "mpz_powm b e m =
     (if m = 0 then Inl DivisionByZero
      else if 0 \<le> e then Inr (b ^ nat e mod \<bar>m\<bar>)
      else case find (\<lambda>x. b * x mod \<bar>m\<bar> = 1 mod \<bar>m\<bar>) (map int [0..<nat \<bar>m\<bar>]) of
             None \<Rightarrow> Inl DivisionByZero
           | Some x \<Rightarrow> Inr (x ^ nat (- e) mod \<bar>m\<bar>))"

text \<open>
  The Fermat test of the code:
  \<^verbatim>\<open>mpz_sub_ui(z_ft_n, z_temp, 1); mpz_powm(z_ft_r, z_ft_b, z_ft_n, z_temp);\<close> then
  \<^verbatim>\<open>mpz_cmp_ui(z_ft_r, 1) == 0\<close>, with \<open>z_ft_b = 2\<close>.
\<close>

definition fermat_test :: "int \<Rightarrow> fault + bool" where
  "fermat_test n = (case mpz_powm 2 (n - 1) n of Inl e \<Rightarrow> Inl e | Inr r \<Rightarrow> Inr (r = 1))"

text \<open>
  The limbs of a non-negative big integer: its digits in base \<open>2^64\<close>, least significant
  first, without leading zeros (\<^verbatim>\<open>_mp_d[0 .. _mp_size)\<close>).
\<close>

function mp_limbs :: "nat \<Rightarrow> u64 list" where
  "mp_limbs n = (if n = 0 then [] else of_nat (n mod 2 ^ 64) # mp_limbs (n div 2 ^ 64))"
  by pat_completeness auto
termination
  by (relation "measure id") simp_all

declare mp_limbs.simps [simp del]

text \<open>Storing a 64-bit limb at a byte address of a little-endian machine.\<close>

definition le_bytes64 :: "u64 \<Rightarrow> u8 list" where
  "le_bytes64 w = map (\<lambda>k. ucast (drop_bit (8 * k) w)) [0..<8]"

text \<open>
  \<^verbatim>\<open>memset(nOffset, 0, 32)\<close>, then the first \<open>min(32/8, _mp_size)\<close> limbs are copied.  For a
  negative value \<open>_mp_size\<close> is negative and the unsigned bound lets the copy run far beyond
  the buffer.
\<close>

definition offset_bytes :: "int \<Rightarrow> fault + u8 list" where
  "offset_bytes z =
     (if z < 0 then Inl OutOfBounds
      else
        let limbs = mp_limbs (nat z);
            n = min (32 div 8) (length limbs)
        in Inr (concat (map le_bytes64 (take n limbs)) @ replicate (32 - 8 * n) 0))"

text \<open>The chain over the biases 1 to 5: it counts the passes and stops at the first failure.\<close>

fun fermat_chain :: "int \<Rightarrow> nat list \<Rightarrow> u8 \<Rightarrow> fault + u8" where
  "fermat_chain z_temp [] nPrimes = Inr nPrimes"
| "fermat_chain z_temp (i # is) nPrimes =
     (let z_temp1 = z_temp + uint (primeTupleOffset ! i)
      in case fermat_test z_temp1 of
           Inl e \<Rightarrow> Inl e
         | Inr pass \<Rightarrow> if pass then fermat_chain z_temp1 is (nPrimes + 1) else Inr nPrimes)"

text \<open>
  One candidate of a job: \<open>None\<close> when nothing is submitted, otherwise the arguments of
  submitWork (the 32-byte buffer and the count).  \<open>tuples\<close> is \<^verbatim>\<open>arguments.tuples\<close>.  The
  product \<^verbatim>\<open>job.testWork.loop*riecoin_sieveSize\<close> is a 32-bit one.
\<close>

definition verify_candidate ::
  "miner_globals \<Rightarrow> nat \<Rightarrow> u32 \<Rightarrow> u32 \<Rightarrow> fault + (u8 list \<times> u8) option" where
  "verify_candidate g tuples loop index =
     (let z_temp = primorial g * uint (loop * riecoin_sieveSize);
          z_temp2 = primorial g * uint index;
          z_temp = z_temp + z_temp2;
          z_temp = z_temp + z_verify_remainderPrimorial g;
          z_temp = z_temp + z_verify_target g;
          z_temp2 = z_temp - z_verify_target g
      in case fermat_test z_temp of
           Inl e \<Rightarrow> Inl e
         | Inr pass \<Rightarrow>
             if \<not> pass then Inr None
             else
               (case fermat_chain z_temp [1..<6] 1 of
                  Inl e \<Rightarrow> Inl e
                | Inr nPrimes \<Rightarrow>
                    if unat nPrimes < tuples then Inr None
                    else case offset_bytes z_temp2 of
                           Inl e \<Rightarrow> Inl e
                         | Inr nOffset \<Rightarrow> Inr (Some (nOffset, nPrimes))))"

fun verify_job ::
  "miner_globals \<Rightarrow> nat \<Rightarrow> u32 \<Rightarrow> u32 list \<Rightarrow> fault + (u8 list \<times> u8) list" where
  "verify_job g tuples loop [] = Inr []"
| "verify_job g tuples loop (index # rest) =
     (case verify_candidate g tuples loop index of
        Inl e \<Rightarrow> Inl e
      | Inr sub \<Rightarrow>
          (case verify_job g tuples loop rest of
             Inl e \<Rightarrow> Inl e
           | Inr subs \<Rightarrow> Inr (case sub of None \<Rightarrow> subs | Some s \<Rightarrow> s # subs)))"

text \<open>Reading a buffer as a little-endian number.\<close>

fun read_le :: "u8 list \<Rightarrow> int" where
  "read_le [] = 0"
| "read_le (b # bs) = uint b + 256 * read_le bs"

text \<open>The value of a list of limbs.\<close>

fun limbs_value :: "u64 list \<Rightarrow> nat" where
  "limbs_value [] = 0"
| "limbs_value (l # ls) = unat l + 2 ^ 64 * limbs_value ls"

definition cfg_tuple :: miner_globals where
  "cfg_tuple = \<lparr>primes = [2, 3, 5], inverts = [0, 0, 0], primorial = 30,
     primorialNumber = 3, entriesPerSegment = 4, startingPrimeIndex = 3, n_dense = 0, n_sparse = 0,
     sieveWorkers = 1, z_verify_target = 0, z_verify_remainderPrimorial = 7\<rparr>"

section \<open>miningProcess: the scan of the merged sieve\<close>

definition WORK_INDEXES :: nat where
  "WORK_INDEXES = 64"

text \<open>
  \<^verbatim>\<open>((uint64_t*) sieve)[b]\<close> on a little-endian machine: byte \<open>8 * b + k\<close> holds bits
  \<open>8 * k\<close> to \<open>8 * k + 7\<close> of the word.
\<close>

definition sieve64 :: "sieve_bitmap \<Rightarrow> nat \<Rightarrow> u64" where
  "sieve64 sieve b = word_of_int (horner_sum uint (2 ^ 8) (map (\<lambda>k. sieve (8 * b + k)) [0..<8]))"

text \<open>\<^verbatim>\<open>__builtin_clzll\<close>: the number of zero bits above the highest set bit.\<close>

definition clzll :: "u64 \<Rightarrow> u32" where
  "clzll sb = of_nat (length (takeWhile (\<lambda>i. \<not> bit sb i) (rev [0..<64])))"

text \<open>
  The state of the scan: \<open>w_indexes\<close> is \<^verbatim>\<open>w.testWork.indexes[0 .. n_indexes)\<close>, the queue holds
  the TYPE_CHECK jobs pushed and not discarded, each with its \<open>loop\<close> and its indexes;
  \<open>observed\<close> counts the comparisons of \<^verbatim>\<open>block.height\<close> with
  \<^verbatim>\<open>monitorCurrentBlockHeight\<close> made so far.  The height is written by another thread: the
  outcome of the \<open>k\<close>-th comparison is the parameter \<open>changed k\<close>.  The counter
  \<^verbatim>\<open>outstandingTests\<close> is bookkeeping between threads and is left out.
\<close>

record check_state =
  w_indexes :: "u32 list"
  verifyWorkQueue :: "(u32 \<times> u32 list) list"
  countCandidates :: u32
  observed :: nat
  do_reset :: bool

text \<open>The loop \<^verbatim>\<open>while (sb != 0)\<close> over the clear bits of one word, highest first.\<close>

function extract_while ::
  "(nat \<Rightarrow> bool) \<Rightarrow> u32 \<Rightarrow> u32 \<Rightarrow> u64 \<Rightarrow> int \<Rightarrow> check_state \<Rightarrow> fault + check_state" where
  "extract_while changed loop b sb sb_process_count st =
     (if sb = 0 then Inr st
      else if sb_process_count + 1 > 65 then Inl ProcessExit
      else if WORK_INDEXES \<le> length (w_indexes st) then Inl OutOfBounds
      else
        let highsb = clzll sb;
            i = b * 64 + (63 - highsb);
            sb1 = sb AND NOT (push_bit (unat (63 - highsb)) 1);
            st1 = st\<lparr>countCandidates := countCandidates st + 1,
                     w_indexes := w_indexes st @ [i]\<rparr>;
            st2 = (if length (w_indexes st1) = WORK_INDEXES
                   then st1\<lparr>verifyWorkQueue := verifyWorkQueue st1 @ [(loop, w_indexes st1)],
                            w_indexes := []\<rparr>
                   else st1);
            st3 = st2\<lparr>observed := observed st2 + 1\<rparr>
        in if changed (observed st2)
           then Inr (st3\<lparr>verifyWorkQueue := [], do_reset := True\<rparr>)
           else extract_while changed loop b sb1 (sb_process_count + 1) st3)"
  by pat_completeness auto
termination
  by (relation "measure (\<lambda>(changed, loop, b, sb, c, st). nat (66 - c))") simp_all

declare extract_while.simps [simp del]

text \<open>The loop \<^verbatim>\<open>for (b = 0; !do_reset && b < riecoin_sieveWords; b++)\<close>.\<close>

fun extract_words ::
  "(nat \<Rightarrow> bool) \<Rightarrow> u32 \<Rightarrow> sieve_bitmap \<Rightarrow> nat list \<Rightarrow> check_state \<Rightarrow> fault + check_state" where
  "extract_words changed loop sieve [] st = Inr st"
| "extract_words changed loop sieve (b # bs) st =
     (if do_reset st then Inr st
      else case extract_while changed loop (of_nat b) (NOT (sieve64 sieve b)) 0 st of
             Inl e \<Rightarrow> Inl e
           | Inr st1 \<Rightarrow> extract_words changed loop sieve bs st1)"

text \<open>
  The whole scan of one iteration, from \<^verbatim>\<open>w.testWork.n_indexes = 0\<close> to the push of the last,
  partly filled job.
\<close>

definition extract_candidates ::
  "(nat \<Rightarrow> bool) \<Rightarrow> u32 \<Rightarrow> sieve_bitmap \<Rightarrow> (u32 \<times> u32 list) list \<Rightarrow> u32 \<Rightarrow> fault + check_state" where
  "extract_candidates changed loop sieve queue count =
     (case extract_words changed loop sieve [0..<unat riecoin_sieveWords]
             \<lparr>w_indexes = [], verifyWorkQueue = queue, countCandidates = count,
              observed = 0, do_reset = False\<rparr> of
        Inl e \<Rightarrow> Inl e
      | Inr st \<Rightarrow>
          Inr (if 0 < length (w_indexes st)
               then st\<lparr>verifyWorkQueue := verifyWorkQueue st @ [(loop, w_indexes st)],
                       w_indexes := []\<rparr>
               else st))"

text \<open>The indexes held by the jobs of a queue and by the job being filled.\<close>

definition job_indexes :: "(u32 \<times> u32 list) list \<Rightarrow> u32 set" where
  "job_indexes queue = set (concat (map snd queue))"

text \<open>The indexes appended since the queue held \<open>n\<close> jobs.\<close>

definition scan_indexes :: "nat \<Rightarrow> check_state \<Rightarrow> u32 set" where
  "scan_indexes n st = job_indexes (drop n (verifyWorkQueue st)) \<union> set (w_indexes st)"

definition scan_inv :: "nat \<Rightarrow> u32 \<Rightarrow> check_state \<Rightarrow> bool" where
  "scan_inv n loop st \<longleftrightarrow>
     n \<le> length (verifyWorkQueue st) \<and> length (w_indexes st) < WORK_INDEXES \<and> \<not> do_reset st \<and>
     fst ` set (drop n (verifyWorkQueue st)) \<subseteq> {loop}"

definition no_height_change :: "nat \<Rightarrow> bool" where
  "no_height_change k = False"

definition clear_sieve :: sieve_bitmap where
  "clear_sieve a = 0"

section \<open>Target derivation: the bit layout\<close>

lemma powHash_bit_iff: "powHash_bit h i \<longleftrightarrow> bit (h ! (i div 8)) (i mod 8)"
proof -
  have "drop_bit n w AND 1 \<noteq> 0 \<longleftrightarrow> bit w n" for w :: u8 and n
    by (simp add: and_one_eq bit_iff_odd_drop_bit mod_2_eq_odd)
  then show ?thesis by (simp add: powHash_bit_def)
qed

text \<open>After a shift the lowest limb is even, so incrementing it cannot wrap.\<close>

lemma mp_d0_incr_double: "mp_d0_incr (z * 2) = z * 2 + 1"
proof -
  have e: "even ((z * 2) mod 2 ^ 64)" by (simp add: dvd_mod_iff)
  have "(z * 2) mod 2 ^ 64 < 2 ^ 64" by simp
  moreover have "(z * 2) mod 2 ^ 64 \<noteq> 2 ^ 64 - 1"
    using e by auto
  ultimately have "(z * 2) mod 2 ^ 64 + 1 < 2 ^ 64" by linarith
  moreover have "0 \<le> (z * 2) mod 2 ^ 64 + 1" by (simp add: add_nonneg_nonneg)
  ultimately have "((z * 2) mod 2 ^ 64 + 1) mod 2 ^ 64 = (z * 2) mod 2 ^ 64 + 1"
    by (simp only: mod_pos_pos_trivial)
  then show ?thesis by (simp add: mp_d0_incr_def)
qed

lemma target_hash_loop_append:
  "target_hash_loop h (xs @ ys) z = target_hash_loop h ys (target_hash_loop h xs z)"
  by (induction xs arbitrary: z) simp_all

lemma bits_msb_first_Suc:
  "bits_msb_first b (Suc n) = 2 * bits_msb_first b n + (if b n then 1 else 0)"
proof -
  have "(\<Sum>i<n. if b i then (2::int) ^ (Suc n - 1 - i) else 0)
      = (\<Sum>i<n. 2 * (if b i then 2 ^ (n - 1 - i) else 0))"
  proof (rule sum.cong)
    fix i assume "i \<in> {..<n}"
    then have "Suc n - 1 - i = Suc (n - 1 - i)" by auto
    then show "(if b i then (2::int) ^ (Suc n - 1 - i) else 0)
        = 2 * (if b i then 2 ^ (n - 1 - i) else 0)"
      by simp
  qed simp
  then show ?thesis
    by (simp add: bits_msb_first_def sum_distrib_left)
qed

lemma bits_msb_first_bounds: "0 \<le> bits_msb_first b n \<and> bits_msb_first b n < 2 ^ n"
proof (induction n)
  case 0
  show ?case by (simp add: bits_msb_first_def)
next
  case (Suc n)
  then show ?case by (auto simp: bits_msb_first_Suc)
qed

lemma target_hash_loop_upt:
  "target_hash_loop h [0..<n] z
     = z * 2 ^ n + bits_msb_first (\<lambda>i. bit (h ! (i div 8)) (i mod 8)) n"
proof (induction n)
  case 0
  then show ?case by (simp add: bits_msb_first_def)
next
  case (Suc n)
  let ?y = "z * 2 ^ n + bits_msb_first (\<lambda>i. bit (h ! (i div 8)) (i mod 8)) n"
  have "target_hash_loop h [0..<Suc n] z
      = (if bit (h ! (n div 8)) (n mod 8) then mp_d0_incr (?y * 2) else ?y * 2)"
    using Suc by (simp add: target_hash_loop_append powHash_bit_iff Let_def)
  then have "target_hash_loop h [0..<Suc n] z
      = ?y * 2 + (if bit (h ! (n div 8)) (n mod 8) then 1 else 0)"
    by (simp only: mp_d0_incr_double) simp
  then show ?case
    by (simp add: bits_msb_first_Suc algebra_simps)
qed

lemma hash_value_eq: "hash_value h = bits_msb_first (\<lambda>i. bit (h ! (i div 8)) (i mod 8)) 256"
  unfolding hash_value_def bits_msb_first_def by (rule sum.cong) simp_all

lemma getTargetFromBlock_closed_form:
  "getTargetFromBlock h sb = (2 ^ 264 + hash_value h) * 2 ^ unat (sb - 265)"
proof -
  have "sb - 1 - 8 - 256 = sb - 265" by simp
  then show ?thesis
    by (simp add: getTargetFromBlock_def Let_def zeroesBeforeHashInPrime_def target_hash_loop_upt
        hash_value_eq)
qed

text \<open>
  Claim C6, as the code has it.  For every digest \<open>h\<close> and every compact target
  \<open>searchBits\<close> of at least 265, getTargetFromBlock returns
  \<open>(2^264 + H) * 2^(searchBits - 265)\<close>, where \<open>H\<close> is the digest read bit by bit in
  the order \<open>i = 0 .. 255\<close> (bit \<open>i % 8\<close> of byte \<open>i / 8\<close>, the first one most
  significant); \<open>H\<close> fits in 256 bits, and the target has exactly \<open>searchBits\<close> bits.
  The lower bound on \<open>searchBits\<close> is needed: the count of trailing zeros is computed in
  32-bit unsigned arithmetic.
\<close>

theorem getTargetFromBlock_layout:
  assumes "265 \<le> sb"
  shows "getTargetFromBlock h sb = (2 ^ 264 + hash_value h) * 2 ^ (unat sb - 265)
    \<and> 0 \<le> hash_value h \<and> hash_value h < 2 ^ 256
    \<and> 2 ^ (unat sb - 1) \<le> getTargetFromBlock h sb \<and> getTargetFromBlock h sb < 2 ^ unat sb"
proof -
  have u: "unat (sb - 265) = unat sb - 265"
    using assms by (simp add: unat_sub)
  have le: "265 \<le> unat sb" using assms by (simp add: word_le_nat_alt)
  have hb: "0 \<le> hash_value h" "hash_value h < 2 ^ 256"
    using bits_msb_first_bounds [of _ 256] by (simp_all add: hash_value_eq)
  have e: "getTargetFromBlock h sb = (2 ^ 264 + hash_value h) * 2 ^ (unat sb - 265)"
    by (simp add: getTargetFromBlock_closed_form u)
  have s1: "unat sb - 1 = 264 + (unat sb - 265)" and s2: "unat sb = 265 + (unat sb - 265)"
    using le by simp_all
  have lo: "(2::int) ^ (unat sb - 1) \<le> (2 ^ 264 + hash_value h) * 2 ^ (unat sb - 265)"
    using hb by (subst s1, simp only: power_add) (simp add: mult_right_mono)
  have "(2 ^ 264 + hash_value h) < (2::int) ^ 265" using hb by simp
  then have "(2 ^ 264 + hash_value h) * 2 ^ (unat sb - 265) < (2::int) ^ 265 * 2 ^ (unat sb - 265)"
    by (simp add: mult_strict_right_mono)
  then have hi: "(2 ^ 264 + hash_value h) * 2 ^ (unat sb - 265) < (2::int) ^ unat sb"
    by (subst (2) s2, simp only: power_add)
  show ?thesis using e hb lo hi by simp
qed

theorem getTargetFromBlock_layout_witness:
  "(265::u32) \<le> 304
    \<and> getTargetFromBlock digest_low_residue 304
        = (2 ^ 264 + hash_value digest_low_residue) * 2 ^ (unat (304::u32) - 265)
    \<and> 2 ^ (unat (304::u32) - 1) \<le> getTargetFromBlock digest_low_residue 304
    \<and> getTargetFromBlock digest_low_residue 304 < 2 ^ unat (304::u32)"
proof -
  have h: "(265::u32) \<le> 304" by simp
  show ?thesis
    using h getTargetFromBlock_layout [OF h, of digest_low_residue] by blast
qed

text \<open>
  Claim C6 as stated, for every \<open>searchBits\<close>, fails below 265: with \<open>searchBits = 264\<close>
  the subtraction wraps to \<open>2^32 - 1\<close> trailing zeros and the target has more than 264 bits.
\<close>

theorem getTargetFromBlock_small_searchBits_counterexample:
  "\<not> getTargetFromBlock (replicate 32 0) 264 < 2 ^ unat (264 :: u32)"
proof -
  have "0 \<le> hash_value (replicate 32 0)"
    using bits_msb_first_bounds [of _ 256] by (simp add: hash_value_eq)
  then have "(2::int) ^ 264 * 1
      \<le> (2 ^ 264 + hash_value (replicate 32 0)) * 2 ^ unat (264 - 265 :: u32)"
    by (intro mult_mono) simp_all
  then show ?thesis by (simp add: getTargetFromBlock_closed_form)
qed

section \<open>The per-block remainder\<close>






section \<open>Segment buckets\<close>

lemma unat_maxiter: "unat maxiter = 32"
  by (simp add: maxiter_def max_increments_def riecoin_sieveSize_def riecoin_sieveBits_def)

lemma unat_sieveSize: "unat riecoin_sieveSize = 2 ^ 24"
  by (simp add: riecoin_sieveSize_def riecoin_sieveBits_def)

lemma unat_max_increments: "unat max_increments = 2 ^ 29"
  by (simp add: max_increments_def)

lemma segment_of_index:
  fixes x :: u32
  assumes "unat x < 2 ^ 29"
  shows "unat (drop_bit riecoin_sieveBits x) = unat x div 2 ^ 24"
    and "unat x div 2 ^ 24 < 32"
    and "x - riecoin_sieveSize * drop_bit riecoin_sieveBits x = of_nat (unat x mod 2 ^ 24)"
proof -
  show "unat (drop_bit riecoin_sieveBits x) = unat x div 2 ^ 24"
    by (simp add: riecoin_sieveBits_def unat_drop_bit_eq drop_bit_eq_div unat_div)
  show "unat x div 2 ^ 24 < 32" using assms by simp
  have "x - riecoin_sieveSize * drop_bit riecoin_sieveBits x = x mod 2 ^ 24"
    by (simp add: riecoin_sieveSize_def riecoin_sieveBits_def drop_bit_eq_div minus_mult_div_eq_mod)
  also have "\<dots> = of_nat (unat x mod 2 ^ 24)"
  proof -
    have "unat x mod 2 ^ 24 < 2 ^ 32"
      by (rule less_trans [OF mod_less_divisor]) simp_all
    then show ?thesis
      by (simp add: word_unat_eq_iff unat_mod_distrib unat_of_nat)
  qed
  finally show "x - riecoin_sieveSize * drop_bit riecoin_sieveBits x = of_nat (unat x mod 2 ^ 24)" .
qed

lemma put_offsets_append:
  "put_offsets_in_segments g (xs @ ys) st =
     (case put_offsets_in_segments g xs st of Inl e \<Rightarrow> Inl e
      | Inr st1 \<Rightarrow> put_offsets_in_segments g ys st1)"
  by (induction xs arbitrary: st) (simp_all add: Let_def)

lemma put_offsets_step:
  assumes wf: "buckets_wf g st" and inv: "buckets_inv g st" and x: "unat x < 2 ^ 29"
  defines "k \<equiv> unat x div 2 ^ 24"
  defines "sc \<equiv> segment_counts st ! k"
  shows "k < 32"
    and "entriesPerSegment g \<le> sc \<Longrightarrow> put_offsets_in_segments g [x] st = Inl ProcessExit"
    and "sc < entriesPerSegment g \<Longrightarrow>
         put_offsets_in_segments g [x] st =
           Inr (st\<lparr>segment_hits := (segment_hits st)[k :=
                     (segment_hits st ! k)[unat sc := of_nat (unat x mod 2 ^ 24)]],
                   segment_counts := (segment_counts st)[k := sc + 1]\<rparr>)"
    and "sc < entriesPerSegment g \<Longrightarrow> unat (sc + 1) = unat sc + 1"
    and "sc < entriesPerSegment g \<Longrightarrow>
         buckets_wf g (st\<lparr>segment_hits := (segment_hits st)[k :=
                     (segment_hits st ! k)[unat sc := of_nat (unat x mod 2 ^ 24)]],
                   segment_counts := (segment_counts st)[k := sc + 1]\<rparr>)"
    and "sc < entriesPerSegment g \<Longrightarrow>
         buckets_inv g (st\<lparr>segment_hits := (segment_hits st)[k :=
                     (segment_hits st ! k)[unat sc := of_nat (unat x mod 2 ^ 24)]],
                   segment_counts := (segment_counts st)[k := sc + 1]\<rparr>)"
proof -
  note seg = segment_of_index [OF x]
  show k: "k < 32" using seg by (simp add: k_def)
  have len: "length (segment_counts st) = 32" "length (segment_hits st) = 32"
    "length (segment_hits st ! k) = unat (entriesPerSegment g)"
    using wf k by (simp_all add: buckets_wf_def unat_maxiter)
  show "put_offsets_in_segments g [x] st = Inl ProcessExit" if "entriesPerSegment g \<le> sc"
    using that len k seg by (simp add: Let_def k_def sc_def)
  show inc: "unat (sc + 1) = unat sc + 1" if "sc < entriesPerSegment g"
    using that by unat_arith
  have lt: "unat sc < unat (entriesPerSegment g)" if "sc < entriesPerSegment g"
    using that by (simp add: word_less_nat_alt)
  show "put_offsets_in_segments g [x] st =
           Inr (st\<lparr>segment_hits := (segment_hits st)[k :=
                     (segment_hits st ! k)[unat sc := of_nat (unat x mod 2 ^ 24)]],
                   segment_counts := (segment_counts st)[k := sc + 1]\<rparr>)"
    if "sc < entriesPerSegment g"
    using that len k seg lt [OF that] by (simp add: Let_def k_def sc_def)
  show "buckets_wf g (st\<lparr>segment_hits := (segment_hits st)[k :=
                     (segment_hits st ! k)[unat sc := of_nat (unat x mod 2 ^ 24)]],
                   segment_counts := (segment_counts st)[k := sc + 1]\<rparr>)"
    if "sc < entriesPerSegment g"
    using wf len k by (auto simp: buckets_wf_def nth_list_update unat_maxiter)
  show "buckets_inv g (st\<lparr>segment_hits := (segment_hits st)[k :=
                     (segment_hits st ! k)[unat sc := of_nat (unat x mod 2 ^ 24)]],
                   segment_counts := (segment_counts st)[k := sc + 1]\<rparr>)"
    if "sc < entriesPerSegment g"
  proof -
    have "sc + 1 \<le> entriesPerSegment g"
      using that by (simp add: inc_le)
    then show ?thesis
      using inv len k by (auto simp: buckets_inv_def nth_list_update unat_maxiter)
  qed
qed

lemma put_offsets_run:
  assumes "buckets_wf g st" "buckets_inv g st" "\<forall>x \<in> set xs. unat x < 2 ^ 29"
  shows "case put_offsets_in_segments g xs st of
           Inl e \<Rightarrow> e = ProcessExit
         | Inr st1 \<Rightarrow> buckets_wf g st1 \<and> buckets_inv g st1 \<and> offsets st1 = offsets st"
  using assms
proof (induction xs arbitrary: st)
  case Nil
  then show ?case by simp
next
  case (Cons x xs)
  have x: "unat x < 2 ^ 29" using Cons.prems by simp
  note step = put_offsets_step [OF Cons.prems(1,2) x]
  have split: "put_offsets_in_segments g (x # xs) st =
     (case put_offsets_in_segments g [x] st of Inl e \<Rightarrow> Inl e
      | Inr st1 \<Rightarrow> put_offsets_in_segments g xs st1)"
    using put_offsets_append [of g "[x]" xs st] by simp
  show ?case
  proof (cases "entriesPerSegment g \<le> segment_counts st ! (unat x div 2 ^ 24)")
    case True
    then show ?thesis using step(2) split by simp
  next
    case False
    then have lt: "segment_counts st ! (unat x div 2 ^ 24) < entriesPerSegment g" by simp
    let ?st1 = "st\<lparr>segment_hits := (segment_hits st)[unat x div 2 ^ 24 :=
                     (segment_hits st ! (unat x div 2 ^ 24))
                       [unat (segment_counts st ! (unat x div 2 ^ 24)) := of_nat (unat x mod 2 ^ 24)]],
                   segment_counts := (segment_counts st)[unat x div 2 ^ 24 :=
                     segment_counts st ! (unat x div 2 ^ 24) + 1]\<rparr>"
    have e: "put_offsets_in_segments g (x # xs) st = put_offsets_in_segments g xs ?st1"
      using step(3) [OF lt] split by simp
    have "case put_offsets_in_segments g xs ?st1 of
           Inl e \<Rightarrow> e = ProcessExit
         | Inr st2 \<Rightarrow> buckets_wf g st2 \<and> buckets_inv g st2 \<and> offsets st2 = offsets ?st1"
      using Cons.IH [OF step(5) [OF lt] step(6) [OF lt]] Cons.prems(3) by simp
    then show ?thesis using e by (simp split: sum.splits)
  qed
qed

lemma put_offsets_trace:
  assumes "buckets_wf g st" "buckets_inv g st" "\<forall>x \<in> set xs. unat x < unat max_increments"
    and "n < length xs"
  shows "case put_offsets_in_segments g (take n xs) st of
           Inl e \<Rightarrow> e = ProcessExit \<and> put_offsets_in_segments g (take (Suc n) xs) st = Inl ProcessExit
         | Inr st1 \<Rightarrow>
             buckets_wf g st1 \<and> buckets_inv g st1 \<and>
             (let x = xs ! n; k = unat x div unat riecoin_sieveSize; sc = segment_counts st1 ! k in
              k < unat maxiter \<and> k = unat (drop_bit riecoin_sieveBits x) \<and>
              (if entriesPerSegment g \<le> sc
               then put_offsets_in_segments g (take (Suc n) xs) st = Inl ProcessExit
               else \<exists>st2. put_offsets_in_segments g (take (Suc n) xs) st = Inr st2 \<and>
                      segment_hits st2 = (segment_hits st1)[k :=
                         (segment_hits st1 ! k)[unat sc := of_nat (unat x mod unat riecoin_sieveSize)]] \<and>
                      unat sc < length (segment_hits st1 ! k) \<and>
                      segment_counts st2 = (segment_counts st1)[k := sc + 1] \<and>
                      unat (sc + 1) = unat sc + 1 \<and>
                      buckets_wf g st2 \<and> buckets_inv g st2))"
proof -
  have xs: "\<forall>x \<in> set xs. unat x < 2 ^ 29"
    using assms(3) by (simp add: unat_max_increments)
  then have pre: "\<forall>x \<in> set (take n xs). unat x < 2 ^ 29"
    by (meson in_set_takeD)
  have x: "unat (xs ! n) < 2 ^ 29" using xs assms(4) by simp
  have tk: "take (Suc n) xs = take n xs @ [xs ! n]"
    using assms(4) by (simp add: take_Suc_conv_app_nth)
  note run = put_offsets_run [OF assms(1,2) pre]
  show ?thesis
  proof (cases "put_offsets_in_segments g (take n xs) st")
    case (Inl e)
    then show ?thesis using run by (simp add: tk put_offsets_append)
  next
    case (Inr st1)
    then have wf1: "buckets_wf g st1" and inv1: "buckets_inv g st1"
      using run by simp_all
    note step = put_offsets_step [OF wf1 inv1 x]
    note seg = segment_of_index [OF x]
    have len: "length (segment_hits st1 ! (unat (xs ! n) div 2 ^ 24)) = unat (entriesPerSegment g)"
      using wf1 step(1) by (simp add: buckets_wf_def unat_maxiter)
    have nxt: "put_offsets_in_segments g (take (Suc n) xs) st = put_offsets_in_segments g [xs ! n] st1"
      using Inr by (simp add: tk put_offsets_append)
    show ?thesis
    proof (cases "entriesPerSegment g \<le> segment_counts st1 ! (unat (xs ! n) div 2 ^ 24)")
      case True
      then show ?thesis
        using Inr wf1 inv1 step(1) step(2) seg(1) nxt
        by (simp add: Let_def unat_sieveSize unat_maxiter)
    next
      case False
      then have lt: "segment_counts st1 ! (unat (xs ! n) div 2 ^ 24) < entriesPerSegment g" by simp
      then have lt': "unat (segment_counts st1 ! (unat (xs ! n) div 2 ^ 24)) < unat (entriesPerSegment g)"
        by (simp add: word_less_nat_alt)
      show ?thesis
        using Inr wf1 inv1 step(1) step(3) [OF lt] step(4) [OF lt] step(5) [OF lt] step(6) [OF lt]
          seg(1) nxt False len lt'
        by (simp add: Let_def unat_sieveSize unat_maxiter)
    qed
  qed
qed

section \<open>Offsets computed by update_remainders\<close>

lemma unat_ucast_32_64: "unat (ucast (w :: u32) :: u64) = unat w"
proof -
  have "unat w < 2 ^ 32" using unsigned_less [of w] by simp
  then have "unat w < 2 ^ 64" by simp
  then show ?thesis by (simp add: unsigned_ucast_eq take_bit_nat_eq_self)
qed

lemma unat_ucast_64_32: "unat (x :: u64) < 2 ^ 32 \<Longrightarrow> unat (ucast x :: u32) = unat x"
  by (simp add: unsigned_ucast_eq take_bit_nat_eq_self)

lemma bias_step:
  fixes p r d inv :: u32
  assumes r: "r \<le> p" and p4: "4 \<le> p" and d: "d \<le> 4" and nowrap: "unat p + 4 < 2 ^ 32"
  defines "r1 \<equiv> r + d"
  defines "r2 \<equiv> (if r1 > p then r1 - p else r1)"
  defines "index \<equiv> bias_index p inv r2"
  shows "r2 \<le> p"
    and "int (unat r2) mod int (unat p) = (int (unat r) + int (unat d)) mod int (unat p)"
    and "unat index = ((unat p - unat r2) * unat inv) mod unat p"
    and "unat index < unat p"
proof -
  have rn: "unat r \<le> unat p" using r by (simp add: word_le_nat_alt)
  have pn: "4 \<le> unat p" using p4 by (simp add: word_le_nat_alt)
  have dn: "unat d \<le> 4" using d by (simp add: word_le_nat_alt)
  have r1n: "unat r1 = unat r + unat d"
    unfolding r1_def using rn dn nowrap by (simp add: unat_add_lem [THEN iffD1])
  have r2n: "unat r2 = (if unat r + unat d > unat p then unat r + unat d - unat p else unat r + unat d)"
    unfolding r2_def using r1n by (simp add: word_less_nat_alt unat_sub word_le_nat_alt)
  show r2p: "r2 \<le> p"
    using r2n rn pn dn by (auto simp: word_le_nat_alt)
  show "int (unat r2) mod int (unat p) = (int (unat r) + int (unat d)) mod int (unat p)"
  proof (cases "unat r + unat d > unat p")
    case True
    then have "int (unat r2) = (int (unat r) + int (unat d)) - int (unat p)"
      using r2n by simp
    then show ?thesis by simp
  next
    case False
    then show ?thesis using r2n by simp
  qed
  have pa0: "unat (p - r2) = unat p - unat r2"
    using r2p by (simp add: unat_sub)
  have pa: "unat (ucast (p - r2) :: u64) = unat p - unat r2"
    using pa0 by (simp add: unat_ucast_32_64)
  have "unat p < 2 ^ 32" "unat inv < 2 ^ 32"
    using unsigned_less [of p, where ?'a = nat] unsigned_less [of inv, where ?'a = nat] by simp_all
  then have "unat p - unat r2 < 2 ^ 32" "unat inv < 2 ^ 32"
    by simp_all
  then have "(unat p - unat r2) * unat inv < 2 ^ 32 * 2 ^ 32"
    by (intro mult_strict_mono) simp_all
  then have "unat (ucast (p - r2) :: u64) * unat (ucast inv :: u64) < 2 ^ LENGTH(64)"
    by (simp add: pa0 unat_ucast_32_64)
  then have "unat ((ucast (p - r2) :: u64) * ucast inv) = (unat p - unat r2) * unat inv"
    by (simp add: unat_mult_lem [THEN iffD1] pa0 unat_ucast_32_64)
  then show idx: "unat index = ((unat p - unat r2) * unat inv) mod unat p"
    by (simp add: index_def bias_index_def Let_def unat_mod unat_ucast_32_64)
  show "unat index < unat p" using pn by (simp add: idx)
qed

lemma inverse_solution:
  fixes tar P c :: int and p rr inv v :: nat
  assumes inv: "(P * int inv) mod int p = 1" and p1: "1 < int p"
    and rr: "int rr mod int p = (tar + c) mod int p" and rle: "rr \<le> p"
    and v: "v = ((p - rr) * inv) mod p"
  shows "(tar + int v * P + c) mod int p = 0"
    and "\<And>y. 0 \<le> y \<Longrightarrow> (tar + y * P + c) mod int p = 0 \<Longrightarrow> int v \<le> y"
proof -
  have "int v = (int (p - rr) * int inv) mod int p"
    by (simp add: v zmod_int)
  then have "int v * P mod int p = ((int p - int rr) * int inv) * P mod int p"
    using rle by (simp add: of_nat_diff mod_mult_left_eq)
  also have "\<dots> = ((int p - int rr) * ((P * int inv) mod int p)) mod int p"
    by (simp add: mod_mult_right_eq mult.assoc mult.commute)
  also have "\<dots> = (int p - int rr) mod int p"
    by (simp add: inv)
  also have "\<dots> = (- int rr) mod int p"
    by (metis diff_0 mod_diff_left_eq mod_self)
  finally have vP: "int v * P mod int p = (- int rr) mod int p" .
  have "tar + int v * P + c = (tar + c) + int v * P" by simp
  then have "(tar + int v * P + c) mod int p = ((tar + c) mod int p + (int v * P) mod int p) mod int p"
    by (simp only: mod_add_eq)
  also have "\<dots> = (int rr + (- int rr)) mod int p"
    by (simp only: vP rr [symmetric] mod_add_eq)
  finally show s: "(tar + int v * P + c) mod int p = 0" by simp
  fix y :: int
  assume y: "0 \<le> y" and yz: "(tar + y * P + c) mod int p = 0"
  have "int p dvd (tar + y * P + c) - (tar + int v * P + c)"
    using s yz by (intro dvd_diff) (simp_all add: mod_eq_0_iff_dvd)
  moreover have "(tar + y * P + c) - (tar + int v * P + c) = (y - int v) * P"
    by (simp add: algebra_simps)
  ultimately have "int p dvd (y - int v) * P" by simp
  then have "int p dvd (y - int v) * P * int inv" by simp
  then have "((y - int v) * (P * int inv)) mod int p = 0"
    by (simp add: mult.assoc)
  then have "((y - int v) * ((P * int inv) mod int p)) mod int p = 0"
    by (simp add: mod_mult_right_eq)
  then have "(y - int v) mod int p = 0" by (simp add: inv)
  then have "y mod int p = int v mod int p"
    by (metis mod_eq_dvd_iff mod_0_imp_dvd dvd_eq_mod_eq_0)
  moreover have "int v mod int p = int v"
    using p1 by (simp add: v)
  moreover have "y mod int p \<le> y" using y p1
    by (simp add: zmod_le_nonneg_dividend)
  ultimately show "int v \<le> y" by simp
qed

lemma index_below_max_increments:
  fixes index :: u64
  assumes "index < max_increments"
  shows "unat (ucast index :: u32) < 2 ^ 29"
proof -
  have a: "unat index < 2 ^ 29"
    using assms by (simp add: word_less_nat_alt unat_max_increments)
  then have "unat index < 2 ^ 32" by simp
  then show ?thesis using a by (simp add: unat_ucast_64_32)
qed

lemma bias_loop_buckets:
  assumes "buckets_wf g st" "buckets_inv g st" "stack_ok stack"
    and "\<not> once \<Longrightarrow> i < length (offsets st)"
  shows "case remainders_bias_loop g i p iv once fs r stack st of
           Inl e \<Rightarrow> e = ProcessExit
         | Inr (stack1, st1) \<Rightarrow>
             buckets_wf g st1 \<and> buckets_inv g st1 \<and> stack_ok stack1 \<and>
             length (offsets st1) = length (offsets st) \<and>
             (once \<longrightarrow> offsets st1 = offsets st)"
  using assms
proof (induction fs arbitrary: r stack st)
  case Nil
  then show ?case by simp
next
  case (Cons f fs)
  define r2 where "r2 = next_remainder p r f"
  define index where "index = bias_index p iv r2"
  show ?case
  proof (cases once)
    case False
    let ?st1 = "st\<lparr>offsets := (offsets st)[i := (offsets st ! i)[f := ucast index]]\<rparr>"
    have e: "remainders_bias_loop g i p iv once (f # fs) r stack st
        = remainders_bias_loop g i p iv once fs r2 stack ?st1"
      using False Cons.prems(4) by (simp add: Let_def r2_def index_def)
    have "case remainders_bias_loop g i p iv once fs r2 stack ?st1 of
           Inl e \<Rightarrow> e = ProcessExit
         | Inr (stack1, st1) \<Rightarrow>
             buckets_wf g st1 \<and> buckets_inv g st1 \<and> stack_ok stack1 \<and>
             length (offsets st1) = length (offsets ?st1) \<and>
             (once \<longrightarrow> offsets st1 = offsets ?st1)"
      using Cons.prems by (intro Cons.IH) (simp_all add: buckets_wf_def buckets_inv_def)
    then show ?thesis using e False by (simp split: sum.splits prod.splits)
  next
    case True
    show ?thesis
    proof (cases "index < max_increments")
      case nolt: False
      have e: "remainders_bias_loop g i p iv once (f # fs) r stack st
        = remainders_bias_loop g i p iv once fs r2 stack st"
        using True nolt by (simp add: Let_def r2_def index_def)
      show ?thesis unfolding e using Cons.prems by (intro Cons.IH) simp_all
    next
      case lt: True
      let ?stack1 = "stack @ [ucast index]"
      have all1: "\<forall>x \<in> set ?stack1. unat x < 2 ^ 29"
        using Cons.prems(3) index_below_max_increments [OF lt] by (simp add: stack_ok_def)
      show ?thesis
      proof (cases "int (length ?stack1) \<ge> OFFSET_STACK_SIZE")
        case full: True
        have e: "remainders_bias_loop g i p iv once (f # fs) r stack st
          = (case put_offsets_in_segments g ?stack1 st of
                 Inl e \<Rightarrow> Inl e
               | Inr st1 \<Rightarrow> remainders_bias_loop g i p iv once fs r2 [] st1)"
          using True lt full by (simp add: Let_def r2_def index_def split: sum.splits)
        note run = put_offsets_run [OF Cons.prems(1,2) all1]
        show ?thesis
        proof (cases "put_offsets_in_segments g ?stack1 st")
          case (Inl e')
          then show ?thesis using run e by simp
        next
          case (Inr st1)
          then have st1: "buckets_wf g st1" "buckets_inv g st1" "offsets st1 = offsets st"
            using run by simp_all
          have "case remainders_bias_loop g i p iv once fs r2 [] st1 of
             Inl e \<Rightarrow> e = ProcessExit
           | Inr (stack2, st2) \<Rightarrow>
               buckets_wf g st2 \<and> buckets_inv g st2 \<and> stack_ok stack2 \<and>
               length (offsets st2) = length (offsets st1) \<and>
               (once \<longrightarrow> offsets st2 = offsets st1)"
            using st1 True by (intro Cons.IH) (simp_all add: stack_ok_def OFFSET_STACK_SIZE_def)
          then show ?thesis using e Inr st1 by (simp split: sum.splits prod.splits)
        qed
      next
        case notfull: False
        have e: "remainders_bias_loop g i p iv once (f # fs) r stack st
          = remainders_bias_loop g i p iv once fs r2 ?stack1 st"
          using True lt notfull by (simp add: Let_def r2_def index_def)
        have ok1: "stack_ok ?stack1"
          using all1 notfull by (simp add: stack_ok_def)
        show ?thesis unfolding e using Cons.prems(1,2,4) ok1 by (intro Cons.IH) simp_all
      qed
    qed
  qed
qed

lemma tuple_offset_le: "f < 6 \<Longrightarrow> primeTupleOffset ! f \<le> 4"
proof -
  have "\<forall>x \<in> set primeTupleOffset. x \<le> 4" by (simp add: primeTupleOffset_def)
  moreover assume "f < 6"
  then have "primeTupleOffset ! f \<in> set primeTupleOffset"
    by (intro nth_mem) (simp add: primeTupleOffset_def)
  ultimately show ?thesis by blast
qed

lemma cumulative_Suc:
  "f < 6 \<Longrightarrow> sum_list (map uint (take (Suc f) primeTupleOffset))
     = sum_list (map uint (take f primeTupleOffset)) + uint (primeTupleOffset ! f)"
proof -
  assume "f < 6"
  then have "f < length primeTupleOffset" by (simp add: primeTupleOffset_def)
  then show ?thesis by (simp add: take_Suc_conv_app_nth)
qed

lemma bias_step_solution:
  fixes p r iv :: u32
  assumes r: "r \<le> p" and p4: "4 \<le> p" and pmax: "unat p + 4 < 2 ^ 32"
    and iv: "(P * uint iv) mod uint p = 1" and f: "f < 6"
    and cong: "uint r mod uint p = (tar + sum_list (map uint (take f primeTupleOffset))) mod uint p"
  defines "r2 \<equiv> next_remainder p r f"
  defines "v \<equiv> (ucast (bias_index p iv r2) :: u32)"
  shows "r2 \<le> p"
    and "uint r2 mod uint p = (tar + sum_list (map uint (take (Suc f) primeTupleOffset))) mod uint p"
    and "v < p"
    and "offset_solves tar P p f v"
proof -
  note nowrap = pmax
  have r2: "r2 = (if r + primeTupleOffset ! f > p then r + primeTupleOffset ! f - p
                  else r + primeTupleOffset ! f)"
    by (simp add: r2_def next_remainder_def Let_def)
  note st = bias_step(1,2) [OF r p4 tuple_offset_le [OF f] nowrap, folded r2]
    bias_step(3,4) [OF r p4 tuple_offset_le [OF f] nowrap, where inv = iv, folded r2]
  show "r2 \<le> p" by (rule st(1))
  have "uint r2 mod uint p = (uint r + uint (primeTupleOffset ! f)) mod uint p"
    using st(2) by simp
  also have "\<dots> = (uint r mod uint p + uint (primeTupleOffset ! f)) mod uint p"
    by (simp add: mod_add_left_eq)
  also have "\<dots> = (tar + sum_list (map uint (take f primeTupleOffset)) + uint (primeTupleOffset ! f)) mod uint p"
    by (simp only: cong mod_add_left_eq)
  finally show c2: "uint r2 mod uint p
      = (tar + sum_list (map uint (take (Suc f) primeTupleOffset))) mod uint p"
    by (simp add: cumulative_Suc [OF f] add.assoc)
  have pl: "unat p < 2 ^ 32" using unsigned_less [of p, where ?'a = nat] by simp
  have vn: "unat v = ((unat p - unat r2) * unat iv) mod unat p"
    unfolding v_def using st(3) st(4) pl by (simp add: unat_ucast_64_32)
  show "v < p" using st(3) st(4) vn by (simp add: word_less_nat_alt)
  have "4 \<le> unat p" using p4 by (simp add: word_le_nat_alt)
  then have p1: "1 < int (unat p)" by linarith
  have h1: "(P * int (unat iv)) mod int (unat p) = 1" using iv by simp
  have h2: "int (unat r2) mod int (unat p) = (tar + cumulativeBias f) mod int (unat p)"
    using c2 by (simp add: cumulativeBias_def)
  have h3: "unat r2 \<le> unat p" using st(1) by (simp add: word_le_nat_alt)
  note sol = inverse_solution [OF h1 p1 h2 h3 vn]
  have "(tar + uint v * P + cumulativeBias f) mod uint p = 0"
    using sol(1) by simp
  moreover have "\<forall>y\<ge>0. (tar + y * P + cumulativeBias f) mod uint p = 0 \<longrightarrow> uint v \<le> y"
    using sol(2) by simp
  ultimately show "offset_solves tar P p f v"
    by (simp add: offset_solves_def)
qed

lemma bias_loop_resident:
  assumes i: "i < length (offsets st)" and row: "length (offsets st ! i) = 6"
    and r: "r \<le> p" and p4: "4 \<le> p" and pmax: "unat p + 4 < 2 ^ 32"
    and iv: "(P * uint iv) mod uint p = 1"
    and f0: "f0 \<le> 6"
    and cong: "uint r mod uint p = (tar + sum_list (map uint (take f0 primeTupleOffset))) mod uint p"
  shows "\<exists>st1. remainders_bias_loop g i p iv False [f0..<6] r stack st = Inr (stack, st1) \<and>
      segment_counts st1 = segment_counts st \<and> segment_hits st1 = segment_hits st \<and>
      length (offsets st1) = length (offsets st) \<and>
      (\<forall>j. j \<noteq> i \<longrightarrow> offsets st1 ! j = offsets st ! j) \<and> length (offsets st1 ! i) = 6 \<and>
      (\<forall>f<f0. offsets st1 ! i ! f = offsets st ! i ! f) \<and>
      (\<forall>f. f0 \<le> f \<and> f < 6 \<longrightarrow> offsets st1 ! i ! f < p \<and> offset_solves tar P p f (offsets st1 ! i ! f))"
  using i row r f0 cong
proof (induction "6 - f0" arbitrary: f0 r st)
  case 0
  then have "f0 = 6" by simp
  with 0 show ?case by auto
next
  case (Suc n)
  then have f: "f0 < 6" by simp
  define r2 where "r2 = next_remainder p r f0"
  define v where "v = (ucast (bias_index p iv r2) :: u32)"
  define st' where "st' = st\<lparr>offsets := (offsets st)[i := (offsets st ! i)[f0 := v]]\<rparr>"
  note step = bias_step_solution [OF Suc.prems(3) p4 pmax iv f Suc.prems(5), folded r2_def, folded v_def]
  have upt: "[f0..<6] = f0 # [Suc f0..<6]" using f by (simp add: upt_conv_Cons)
  have e: "remainders_bias_loop g i p iv False [f0..<6] r stack st
      = remainders_bias_loop g i p iv False [Suc f0..<6] r2 stack st'"
    using Suc.prems(1) by (simp add: upt Let_def r2_def v_def st'_def)
  have "\<exists>st1. remainders_bias_loop g i p iv False [Suc f0..<6] r2 stack st' = Inr (stack, st1) \<and>
      segment_counts st1 = segment_counts st' \<and> segment_hits st1 = segment_hits st' \<and>
      length (offsets st1) = length (offsets st') \<and>
      (\<forall>j. j \<noteq> i \<longrightarrow> offsets st1 ! j = offsets st' ! j) \<and> length (offsets st1 ! i) = 6 \<and>
      (\<forall>f<Suc f0. offsets st1 ! i ! f = offsets st' ! i ! f) \<and>
      (\<forall>f. Suc f0 \<le> f \<and> f < 6 \<longrightarrow> offsets st1 ! i ! f < p \<and> offset_solves tar P p f (offsets st1 ! i ! f))"
  proof (rule Suc.hyps(1))
    show "n = 6 - Suc f0" using Suc.hyps(2) by simp
    show "i < length (offsets st')" using Suc.prems(1) by (simp add: st'_def)
    show "length (offsets st' ! i) = 6" using Suc.prems(1,2) by (simp add: st'_def)
    show "r2 \<le> p" by (rule step(1))
    show "Suc f0 \<le> 6" using f by simp
    show "uint r2 mod uint p = (tar + sum_list (map uint (take (Suc f0) primeTupleOffset))) mod uint p"
      by (rule step(2))
  qed
  then obtain st1 where st1: "remainders_bias_loop g i p iv False [Suc f0..<6] r2 stack st' = Inr (stack, st1)"
      "segment_counts st1 = segment_counts st'" "segment_hits st1 = segment_hits st'"
      "length (offsets st1) = length (offsets st')"
      "\<forall>j. j \<noteq> i \<longrightarrow> offsets st1 ! j = offsets st' ! j" "length (offsets st1 ! i) = 6"
      "\<forall>f<Suc f0. offsets st1 ! i ! f = offsets st' ! i ! f"
      "\<forall>f. Suc f0 \<le> f \<and> f < 6 \<longrightarrow> offsets st1 ! i ! f < p \<and> offset_solves tar P p f (offsets st1 ! i ! f)"
    by blast
  have at_f0: "offsets st1 ! i ! f0 = v"
    using st1(7) Suc.prems(1,2) f by (simp add: st'_def)
  have before: "\<forall>f<f0. offsets st1 ! i ! f = offsets st ! i ! f"
    using st1(7) Suc.prems(1,2) by (simp add: st'_def)
  have other: "\<forall>j. j \<noteq> i \<longrightarrow> offsets st1 ! j = offsets st ! j"
    using st1(5) by (simp add: st'_def)
  have from_f0: "offsets st1 ! i ! f' < p \<and> offset_solves tar P p f' (offsets st1 ! i ! f')"
    if "f0 \<le> f' \<and> f' < 6" for f'
  proof (cases "f' = f0")
    case True
    then show ?thesis using at_f0 step(3,4) by simp
  next
    case False
    then show ?thesis using that st1(8) by simp
  qed
  show ?case
    using e st1(1,2,3,4,6) before other from_f0 by (simp add: st'_def)
qed

lemma tdiv_ui_remainder:
  fixes p :: u32
  assumes "0 \<le> tar" "p \<noteq> 0"
  defines "r \<equiv> (ucast (mpz_tdiv_ui tar p) :: u32)"
  shows "r \<le> p" and "uint r mod uint p = tar mod uint p"
proof -
  have p0: "0 < unat p" using assms(2) by (simp add: unat_gt_0)
  have pl: "unat p < 2 ^ 32" using unsigned_less [of p, where ?'a = nat] by simp
  have m: "nat \<bar>tar\<bar> mod unat p < unat p" using p0 by simp
  then have m32: "nat \<bar>tar\<bar> mod unat p < 2 ^ 32" using pl by linarith
  then have "nat \<bar>tar\<bar> mod unat p < 2 ^ 64" by simp
  then have "unat (mpz_tdiv_ui tar p) = nat \<bar>tar\<bar> mod unat p"
    by (simp add: mpz_tdiv_ui_def unat_of_nat)
  then have r: "unat r = nat \<bar>tar\<bar> mod unat p"
    using m32 by (simp add: r_def unat_ucast_64_32)
  show "r \<le> p" using r m by (simp add: word_le_nat_alt)
  have "int (unat r) = tar mod int (unat p)"
    using r assms(1) p0 by (simp add: nat_mod_distrib zmod_int)
  then have "uint r = tar mod uint p" by simp
  then show "uint r mod uint p = tar mod uint p" by simp
qed

lemma update_loop:
  assumes "buckets_wf g st" "buckets_inv g st" "stack_ok stack"
    and "\<forall>i \<in> set is. i < length (primes g) \<and> i < length (inverts g) \<and> 4 \<le> primes g ! i \<and>
           unat (primes g ! i) + 4 < 2 ^ 32 \<and>
           (P * uint (inverts g ! i)) mod uint (primes g ! i) = 1"
    and "offsets_wf g st" and "distinct is" and "0 \<le> tar"
  shows "case update_remainders_loop g tar is stack st of
           Inl e \<Rightarrow> e = ProcessExit
         | Inr (stack1, st1) \<Rightarrow>
             buckets_wf g st1 \<and> buckets_inv g st1 \<and> stack_ok stack1 \<and> offsets_wf g st1 \<and>
             length (offsets st1) = length (offsets st) \<and>
             (\<forall>j. j \<notin> set is \<longrightarrow> offsets st1 ! j = offsets st ! j) \<and>
             (\<forall>i \<in> set is. ucast (primes g ! i) < max_increments \<longrightarrow>
                (\<forall>f<6. offsets st1 ! i ! f < primes g ! i \<and>
                       offset_solves tar P (primes g ! i) f (offsets st1 ! i ! f)))"
  using assms
proof (induction "is" arbitrary: stack st)
  case Nil
  then show ?case by simp
next
  case (Cons i "is")
  define p where "p = primes g ! i"
  define iv where "iv = inverts g ! i"
  define r where "r = (ucast (mpz_tdiv_ui tar p) :: u32)"
  define once where "once = (ucast p \<ge> max_increments)"
  have i: "i < length (primes g)" "i < length (inverts g)" "4 \<le> p" "unat p + 4 < 2 ^ 32"
    "(P * uint iv) mod uint p = 1"
    using Cons.prems(4) by (simp_all add: p_def iv_def)
  have p0: "p \<noteq> 0" using i(3) by auto
  note rem = tdiv_ui_remainder [OF Cons.prems(7) p0, folded r_def]
  have rest: "\<forall>i \<in> set is. i < length (primes g) \<and> i < length (inverts g) \<and> 4 \<le> primes g ! i \<and>
           unat (primes g ! i) + 4 < 2 ^ 32 \<and>
           (P * uint (inverts g ! i)) mod uint (primes g ! i) = 1"
    using Cons.prems(4) by simp
  have dist: "distinct is" "i \<notin> set is" using Cons.prems(6) by simp_all
  have e: "update_remainders_loop g tar (i # is) stack st =
      (case remainders_bias_loop g i p iv once [0..<6] r stack st of
               Inl e \<Rightarrow> Inl e
             | Inr (stack1, st1) \<Rightarrow> update_remainders_loop g tar is stack1 st1)"
    using i(1,2) p0 by (simp add: Let_def p_def iv_def r_def once_def)
  show ?case
  proof (cases once)
    case True
    have b: "case remainders_bias_loop g i p iv once [0..<6] r stack st of
           Inl e \<Rightarrow> e = ProcessExit
         | Inr (stack1, st1) \<Rightarrow>
             buckets_wf g st1 \<and> buckets_inv g st1 \<and> stack_ok stack1 \<and>
             length (offsets st1) = length (offsets st) \<and>
             (once \<longrightarrow> offsets st1 = offsets st)"
      using Cons.prems(1,2,3) True by (intro bias_loop_buckets) simp_all
    show ?thesis
    proof (cases "remainders_bias_loop g i p iv once [0..<6] r stack st")
      case (Inl e')
      then show ?thesis using b e by simp
    next
      case (Inr res)
      obtain stack1 st1 where res: "res = (stack1, st1)" by (cases res)
      have st1: "buckets_wf g st1" "buckets_inv g st1" "stack_ok stack1" "offsets st1 = offsets st"
        using b Inr res True by simp_all
      have owf1: "offsets_wf g st1" using Cons.prems(5) st1(4) by (simp add: offsets_wf_def)
      have ih: "case update_remainders_loop g tar is stack1 st1 of
           Inl e \<Rightarrow> e = ProcessExit
         | Inr (stack2, st2) \<Rightarrow>
             buckets_wf g st2 \<and> buckets_inv g st2 \<and> stack_ok stack2 \<and> offsets_wf g st2 \<and>
             length (offsets st2) = length (offsets st1) \<and>
             (\<forall>j. j \<notin> set is \<longrightarrow> offsets st2 ! j = offsets st1 ! j) \<and>
             (\<forall>i \<in> set is. ucast (primes g ! i) < max_increments \<longrightarrow>
                (\<forall>f<6. offsets st2 ! i ! f < primes g ! i \<and>
                       offset_solves tar P (primes g ! i) f (offsets st2 ! i ! f)))"
        by (rule Cons.IH [OF st1(1,2,3) rest owf1 dist(1) Cons.prems(7)])
      have nres: "\<not> ucast (primes g ! i) < max_increments"
        using True by (simp add: once_def p_def)
      show ?thesis
        using e Inr res ih st1(4) nres
        by (auto split: sum.splits prod.splits)
    qed
  next
    case False
    then have resd: "ucast (primes g ! i) < max_increments"
      by (simp add: once_def p_def)
    then have io: "i < length (offsets st)" "length (offsets st ! i) = 6"
      using Cons.prems(5) i(1) by (simp_all add: offsets_wf_def)
    have c0: "uint r mod uint p = (tar + sum_list (map uint (take 0 primeTupleOffset))) mod uint p"
      using rem(2) by simp
    from bias_loop_resident [OF io rem(1) i(3,4,5) _ c0, of g stack]
    obtain st1 where st1:
      "remainders_bias_loop g i p iv False [0..<6] r stack st = Inr (stack, st1)"
      "segment_counts st1 = segment_counts st" "segment_hits st1 = segment_hits st"
      "length (offsets st1) = length (offsets st)"
      "\<forall>j. j \<noteq> i \<longrightarrow> offsets st1 ! j = offsets st ! j" "length (offsets st1 ! i) = 6"
      "\<forall>f. f < 6 \<longrightarrow> offsets st1 ! i ! f < p \<and> offset_solves tar P p f (offsets st1 ! i ! f)"
      by auto
    have b1: "buckets_wf g st1" "buckets_inv g st1"
      using Cons.prems(1,2) st1(2,3) by (simp_all add: buckets_wf_def buckets_inv_def)
    have owf1: "offsets_wf g st1"
      unfolding offsets_wf_def
    proof (intro allI impI)
      fix j assume j: "j < length (primes g)" "ucast (primes g ! j) < max_increments"
      then have "j < length (offsets st) \<and> length (offsets st ! j) = 6"
        using Cons.prems(5) by (simp add: offsets_wf_def)
      then show "j < length (offsets st1) \<and> length (offsets st1 ! j) = 6"
        using st1(4,5,6) by (cases "j = i") simp_all
    qed
    have ih: "case update_remainders_loop g tar is stack st1 of
           Inl e \<Rightarrow> e = ProcessExit
         | Inr (stack2, st2) \<Rightarrow>
             buckets_wf g st2 \<and> buckets_inv g st2 \<and> stack_ok stack2 \<and> offsets_wf g st2 \<and>
             length (offsets st2) = length (offsets st1) \<and>
             (\<forall>j. j \<notin> set is \<longrightarrow> offsets st2 ! j = offsets st1 ! j) \<and>
             (\<forall>i \<in> set is. ucast (primes g ! i) < max_increments \<longrightarrow>
                (\<forall>f<6. offsets st2 ! i ! f < primes g ! i \<and>
                       offset_solves tar P (primes g ! i) f (offsets st2 ! i ! f)))"
      by (rule Cons.IH [OF b1 Cons.prems(3) rest owf1 dist(1) Cons.prems(7)])
    have e2: "update_remainders_loop g tar (i # is) stack st = update_remainders_loop g tar is stack st1"
      using e st1(1) False by simp
    show ?thesis
    proof (cases "update_remainders_loop g tar is stack st1")
      case (Inl e')
      then show ?thesis using ih e2 by simp
    next
      case (Inr res)
      obtain stack2 st2 where res: "res = (stack2, st2)" by (cases res)
      have st2: "buckets_wf g st2" "buckets_inv g st2" "stack_ok stack2" "offsets_wf g st2"
        "length (offsets st2) = length (offsets st1)"
        "\<forall>j. j \<notin> set is \<longrightarrow> offsets st2 ! j = offsets st1 ! j"
        "\<forall>i \<in> set is. ucast (primes g ! i) < max_increments \<longrightarrow>
                (\<forall>f<6. offsets st2 ! i ! f < primes g ! i \<and>
                       offset_solves tar P (primes g ! i) f (offsets st2 ! i ! f))"
        using ih Inr res by simp_all
      have rowi: "offsets st2 ! i = offsets st1 ! i" using st2(6) dist(2) by simp
      have a: "\<forall>j. j \<notin> set (i # is) \<longrightarrow> offsets st2 ! j = offsets st ! j"
        using st2(6) st1(5) by simp
      have b: "\<forall>f<6. offsets st2 ! i ! f < primes g ! i \<and>
                       offset_solves tar P (primes g ! i) f (offsets st2 ! i ! f)"
        using st1(7) rowi by (simp add: p_def)
      show ?thesis
        using e2 Inr res st2(1,2,3,4,5,7) st1(4) a b by simp
    qed
  qed
qed

lemma update_remainders_result:
  assumes "buckets_wf g st" "buckets_inv g st" "offsets_wf g st" "tables_valid g"
    and "primorialNumber g \<le> start_i" and "unat end_i \<le> length (primes g)"
    and "0 \<le> z_verify_target g + z_verify_remainderPrimorial g"
  shows "case update_remainders g start_i end_i st of
           Inl e \<Rightarrow> e = ProcessExit
         | Inr st1 \<Rightarrow>
             buckets_wf g st1 \<and> buckets_inv g st1 \<and> offsets_wf g st1 \<and>
             length (offsets st1) = length (offsets st) \<and>
             (\<forall>j. \<not> (unat start_i \<le> j \<and> j < unat end_i) \<longrightarrow> offsets st1 ! j = offsets st ! j) \<and>
             (\<forall>i. unat start_i \<le> i \<and> i < unat end_i \<and> ucast (primes g ! i) < max_increments \<longrightarrow>
                (\<forall>f<6. offsets st1 ! i ! f < primes g ! i \<and>
                   offset_solves (z_verify_target g + z_verify_remainderPrimorial g) (primorial g)
                     (primes g ! i) f (offsets st1 ! i ! f)))"
proof -
  let ?tar = "z_verify_target g + z_verify_remainderPrimorial g"
  let ?is = "[unat start_i..<unat end_i]"
  have m: "unat (primorialNumber g) \<le> unat start_i"
    using assms(5) by (simp add: word_le_nat_alt)
  have v: "\<forall>i \<in> set ?is. i < length (primes g) \<and> i < length (inverts g) \<and> 4 \<le> primes g ! i \<and>
           unat (primes g ! i) + 4 < 2 ^ 32 \<and>
           (primorial g * uint (inverts g ! i)) mod uint (primes g ! i) = 1"
    using assms(4,6) m by (auto simp: tables_valid_def)
  have s0: "stack_ok []" by (simp add: stack_ok_def OFFSET_STACK_SIZE_def)
  note loop = update_loop [OF assms(1,2) s0 v assms(3) _ assms(7)]
  show ?thesis
  proof (cases "update_remainders_loop g ?tar ?is [] st")
    case (Inl e)
    then show ?thesis using loop by (simp add: update_remainders_def)
  next
    case (Inr res)
    obtain stack1 st1 where res: "res = (stack1, st1)" by (cases res)
    have st1: "buckets_wf g st1" "buckets_inv g st1" "stack_ok stack1" "offsets_wf g st1"
        "length (offsets st1) = length (offsets st)"
        "\<forall>j. j \<notin> set ?is \<longrightarrow> offsets st1 ! j = offsets st ! j"
        "\<forall>i \<in> set ?is. ucast (primes g ! i) < max_increments \<longrightarrow>
                (\<forall>f<6. offsets st1 ! i ! f < primes g ! i \<and>
                       offset_solves ?tar (primorial g) (primes g ! i) f (offsets st1 ! i ! f))"
      using loop Inr res by simp_all
    have fl: "\<forall>x \<in> set stack1. unat x < 2 ^ 29" using st1(3) by (simp add: stack_ok_def)
    note run = put_offsets_run [OF st1(1,2) fl]
    have e: "update_remainders g start_i end_i st =
        (if length stack1 > 0 then put_offsets_in_segments g stack1 st1 else Inr st1)"
      using Inr res by (simp add: update_remainders_def)
    show ?thesis
    proof (cases "length stack1 > 0")
      case False
      then show ?thesis using e st1 by simp
    next
      case True
      show ?thesis
      proof (cases "put_offsets_in_segments g stack1 st1")
        case (Inl e')
        then show ?thesis using e True run by simp
      next
        case (Inr st2)
        then have st2: "buckets_wf g st2" "buckets_inv g st2" "offsets st2 = offsets st1"
          using run by simp_all
        have "offsets_wf g st2" using st1(4) st2(3) by (simp add: offsets_wf_def)
        then show ?thesis using e True Inr st2 st1 by simp
      qed
    qed
  qed
qed

lemma cfg6_valid: "tables_valid cfg6"
  unfolding tables_valid_def
proof (intro allI impI)
  fix i assume "unat (primorialNumber cfg6) \<le> i \<and> i < length (primes cfg6)"
  then have "i = 2 \<or> i = 3 \<or> i = 4 \<or> i = 5" by (auto simp: cfg6_def)
  then show "i < length (inverts cfg6) \<and> 4 \<le> primes cfg6 ! i \<and> unat (primes cfg6 ! i) + 4 < 2 ^ 32 \<and>
        (primorial cfg6 * uint (inverts cfg6 ! i)) mod uint (primes cfg6 ! i) = 1"
    by (auto simp: cfg6_def)
qed

lemma st6_wf: "buckets_wf cfg6 st6" "buckets_inv cfg6 st6" "offsets_wf cfg6 st6"
  by (auto simp: buckets_wf_def buckets_inv_def offsets_wf_def cfg6_def st6_def unat_maxiter)

lemma ev6: "update_remainders cfg6 2 6 st6 = Inr (st6\<lparr>offsets := [[0, 0, 0, 0, 0, 0], [0, 0, 0, 0, 0, 0], [0, 1, 4, 0, 3, 4],
         [4, 1, 3, 0, 2, 6], [3, 6, 2, 5, 1, 4], [8, 3, 7, 2, 6, 1]]\<rparr>)"
  by code_simp

text \<open>
  Claim C1.  After \<open>update_remainders(start, end)\<close> has run (returned) with
  \<open>primorialNumber \<le> start\<close>, for every prime index \<open>i\<close> in \<open>[start, end)\<close> with
  \<open>primes[i] < max_increments\<close> and every bias index \<open>f < 6\<close>, the stored
  \<open>offsets[i][f]\<close> makes \<open>zTarget + zRemainderPrimorial + offsets[i][f] * P + cumulativeBias f\<close>
  divisible by \<open>primes[i]\<close>, and it is the least non-negative integer that does.
\<close>

theorem update_remainders_offset_correct:
  assumes "update_remainders g start_i end_i st = Inr st1"
    and "tables_valid g" and "primorialNumber g \<le> start_i" and "unat end_i \<le> length (primes g)"
    and "buckets_wf g st" and "buckets_inv g st" and "offsets_wf g st"
    and "0 \<le> z_verify_target g + z_verify_remainderPrimorial g"
    and "unat start_i \<le> i" and "i < unat end_i" and "ucast (primes g ! i) < max_increments"
    and "f < 6"
  shows "(z_verify_target g + z_verify_remainderPrimorial g + uint (offsets st1 ! i ! f) * primorial g
            + cumulativeBias f) mod uint (primes g ! i) = 0
       \<and> (\<forall>y\<ge>0. (z_verify_target g + z_verify_remainderPrimorial g + y * primorial g
            + cumulativeBias f) mod uint (primes g ! i) = 0 \<longrightarrow> uint (offsets st1 ! i ! f) \<le> y)"
proof -
  have "offset_solves (z_verify_target g + z_verify_remainderPrimorial g) (primorial g)
          (primes g ! i) f (offsets st1 ! i ! f)"
    using update_remainders_result [OF assms(5,6,7,2,3,4,8)] assms(1,9,10,11,12) by simp
  then show ?thesis by (simp add: offset_solves_def)
qed

theorem update_remainders_offset_correct_witness:
  "(z_verify_target cfg6 + z_verify_remainderPrimorial cfg6
      + uint ([4, 1, 3, 0, 2, 6 :: u32] ! 2) * primorial cfg6 + cumulativeBias 2)
    mod uint (primes cfg6 ! 3) = 0"
proof -
  have h1: "update_remainders cfg6 2 6 st6 = Inr (st6\<lparr>offsets := [[0, 0, 0, 0, 0, 0], [0, 0, 0, 0, 0, 0],
       [0, 1, 4, 0, 3, 4], [4, 1, 3, 0, 2, 6], [3, 6, 2, 5, 1, 4], [8, 3, 7, 2, 6, 1]]\<rparr>)"
    by (rule ev6)
  have h3: "primorialNumber cfg6 \<le> 2" by (simp add: cfg6_def)
  have h4: "unat (6 :: u32) \<le> length (primes cfg6)" by (simp add: cfg6_def)
  have h8: "0 \<le> z_verify_target cfg6 + z_verify_remainderPrimorial cfg6" by (simp add: cfg6_def)
  have h9: "unat (2 :: u32) \<le> 3" "3 < unat (6 :: u32)" by simp_all
  have h11: "ucast (primes cfg6 ! 3) < max_increments" by (simp add: cfg6_def max_increments_def)
  have h12: "(2 :: nat) < 6" by simp
  note c = update_remainders_offset_correct [OF h1 cfg6_valid h3 h4 st6_wf h8 h9 h11 h12]
  show ?thesis using c by simp
qed

text \<open>
  Claim C7.  With the buckets allocated as miningProcess does and every count at most
  \<open>entriesPerSegment\<close>: at every point \<open>n\<close> of a flush of indices below \<open>max_increments\<close>,
  put_offsets_in_segments has either exited the process (and stays so) or holds the
  invariant; index \<open>x\<close> belongs to bucket \<open>x >> sieveBits\<close>, which is below \<open>maxiter\<close>;
  when that bucket is full the process exits, otherwise \<open>x mod sieveSize\<close> is written at the
  position of the count, inside the bucket, and the count grows by one.  No access leaves
  the arrays.  update_remainders flushes only such indices: it exits or returns with the
  invariant.
\<close>

theorem put_offsets_in_segments_capacity:
  assumes "buckets_wf g st" and "buckets_inv g st"
  shows "(\<forall>xs n. (\<forall>x \<in> set xs. unat x < unat max_increments) \<and> n < length xs \<longrightarrow>
       (case put_offsets_in_segments g (take n xs) st of
           Inl e \<Rightarrow> e = ProcessExit \<and> put_offsets_in_segments g (take (Suc n) xs) st = Inl ProcessExit
         | Inr st1 \<Rightarrow>
             buckets_wf g st1 \<and> buckets_inv g st1 \<and>
             (let x = xs ! n; k = unat x div unat riecoin_sieveSize; sc = segment_counts st1 ! k in
              k < unat maxiter \<and> k = unat (drop_bit riecoin_sieveBits x) \<and>
              (if entriesPerSegment g \<le> sc
               then put_offsets_in_segments g (take (Suc n) xs) st = Inl ProcessExit
               else \<exists>st2. put_offsets_in_segments g (take (Suc n) xs) st = Inr st2 \<and>
                      segment_hits st2 = (segment_hits st1)[k :=
                         (segment_hits st1 ! k)[unat sc := of_nat (unat x mod unat riecoin_sieveSize)]] \<and>
                      unat sc < length (segment_hits st1 ! k) \<and>
                      segment_counts st2 = (segment_counts st1)[k := sc + 1] \<and>
                      unat (sc + 1) = unat sc + 1 \<and>
                      buckets_wf g st2 \<and> buckets_inv g st2))))
    \<and> (\<forall>start_i end_i. offsets_wf g st \<and> tables_valid g \<and> primorialNumber g \<le> start_i \<and>
          unat end_i \<le> length (primes g) \<and> 0 \<le> z_verify_target g + z_verify_remainderPrimorial g \<longrightarrow>
        (case update_remainders g start_i end_i st of
           Inl e \<Rightarrow> e = ProcessExit
         | Inr st1 \<Rightarrow> buckets_wf g st1 \<and> buckets_inv g st1))"
proof (intro conjI allI impI)
  fix xs :: "u32 list" and n
  assume a: "(\<forall>x \<in> set xs. unat x < unat max_increments) \<and> n < length xs"
  show "case put_offsets_in_segments g (take n xs) st of
           Inl e \<Rightarrow> e = ProcessExit \<and> put_offsets_in_segments g (take (Suc n) xs) st = Inl ProcessExit
         | Inr st1 \<Rightarrow>
             buckets_wf g st1 \<and> buckets_inv g st1 \<and>
             (let x = xs ! n; k = unat x div unat riecoin_sieveSize; sc = segment_counts st1 ! k in
              k < unat maxiter \<and> k = unat (drop_bit riecoin_sieveBits x) \<and>
              (if entriesPerSegment g \<le> sc
               then put_offsets_in_segments g (take (Suc n) xs) st = Inl ProcessExit
               else \<exists>st2. put_offsets_in_segments g (take (Suc n) xs) st = Inr st2 \<and>
                      segment_hits st2 = (segment_hits st1)[k :=
                         (segment_hits st1 ! k)[unat sc := of_nat (unat x mod unat riecoin_sieveSize)]] \<and>
                      unat sc < length (segment_hits st1 ! k) \<and>
                      segment_counts st2 = (segment_counts st1)[k := sc + 1] \<and>
                      unat (sc + 1) = unat sc + 1 \<and>
                      buckets_wf g st2 \<and> buckets_inv g st2))"
    using a by (intro put_offsets_trace [OF assms]) simp_all
next
  fix start_i end_i :: u32
  assume a: "offsets_wf g st \<and> tables_valid g \<and> primorialNumber g \<le> start_i \<and>
          unat end_i \<le> length (primes g) \<and> 0 \<le> z_verify_target g + z_verify_remainderPrimorial g"
  have "case update_remainders g start_i end_i st of
           Inl e \<Rightarrow> e = ProcessExit
         | Inr st1 \<Rightarrow>
             buckets_wf g st1 \<and> buckets_inv g st1 \<and> offsets_wf g st1 \<and>
             length (offsets st1) = length (offsets st) \<and>
             (\<forall>j. \<not> (unat start_i \<le> j \<and> j < unat end_i) \<longrightarrow> offsets st1 ! j = offsets st ! j) \<and>
             (\<forall>i. unat start_i \<le> i \<and> i < unat end_i \<and> ucast (primes g ! i) < max_increments \<longrightarrow>
                (\<forall>f<6. offsets st1 ! i ! f < primes g ! i \<and>
                   offset_solves (z_verify_target g + z_verify_remainderPrimorial g) (primorial g)
                     (primes g ! i) f (offsets st1 ! i ! f)))"
    using a by (intro update_remainders_result [OF assms]) simp_all
  then show "case update_remainders g start_i end_i st of
           Inl e \<Rightarrow> e = ProcessExit
         | Inr st1 \<Rightarrow> buckets_wf g st1 \<and> buckets_inv g st1"
    by (simp split: sum.splits)
qed

theorem put_offsets_in_segments_capacity_witness:
  "put_offsets_in_segments cfg6 (take 1 [5, 16777223]) st6
       = Inr (st6\<lparr>segment_hits := (segment_hits st6)[0 := [5, 0, 0, 0]],
                  segment_counts := (segment_counts st6)[0 := 1]\<rparr>)
   \<and> put_offsets_in_segments cfg6 (take (Suc 1) [5, 16777223]) st6 \<noteq> Inl OutOfBounds
   \<and> update_remainders cfg6 2 6 st6 \<noteq> Inl OutOfBounds"
proof -
  note c = put_offsets_in_segments_capacity [OF st6_wf(1,2)]
  have hx: "(\<forall>x \<in> set [5, 16777223 :: u32]. unat x < unat max_increments) \<and> 1 < length [5, 16777223 :: u32]"
    by (simp add: max_increments_def)
  have ev: "put_offsets_in_segments cfg6 (take 1 [5, 16777223]) st6
       = Inr (st6\<lparr>segment_hits := (segment_hits st6)[0 := [5, 0, 0, 0]],
                  segment_counts := (segment_counts st6)[0 := 1]\<rparr>)"
    by code_simp
  note a = c [THEN conjunct1, rule_format, where xs = "[5, 16777223]" and n = 1, OF hx]
  have a': "put_offsets_in_segments cfg6 (take (Suc 1) [5, 16777223]) st6 \<noteq> Inl OutOfBounds"
    using a unfolding ev
    by (auto simp: Let_def simp del: put_offsets_in_segments.simps split: if_splits)
  have hu: "offsets_wf cfg6 st6 \<and> tables_valid cfg6 \<and> primorialNumber cfg6 \<le> 2
   \<and> unat (6 :: u32) \<le> length (primes cfg6)
   \<and> 0 \<le> z_verify_target cfg6 + z_verify_remainderPrimorial cfg6"
    using st6_wf(3) cfg6_valid by (simp add: cfg6_def)
  note d = c [THEN conjunct2, rule_format, where start_i = 2 and end_i = 6, OF hu]
  have d': "update_remainders cfg6 2 6 st6 \<noteq> Inl OutOfBounds"
    using d by (auto split: sum.splits)
  show ?thesis using ev a' d' by blast
qed

section \<open>The TYPE_MOD dispatch loop\<close>

lemma mod_dispatch_loop_stuck:
  assumes "mod_dispatch_loop nPrimes incr base queue n = Some r"
  shows "\<not> (incr = 0 \<and> base < nPrimes)"
proof (rule mod_dispatch_loop.raw_induct
    [where P = "\<lambda>nPrimes incr base queue n r. \<not> (incr = 0 \<and> base < nPrimes)", OF _ assms])
  fix f nPrimes incr base queue n_workers and y :: "(u32 \<times> u32) list \<times> int"
  assume IH: "\<And>a b c d e y. f a b c d e = Some y \<Longrightarrow> \<not> (b = 0 \<and> c < a)"
    and st: "(if base < nPrimes
      then f nPrimes incr (base + incr)
            (queue @ [(base, min nPrimes (base + incr))]) (n_workers + 1)
      else Some (queue, n_workers)) = Some y"
  show "\<not> (incr = 0 \<and> base < nPrimes)"
  proof
    assume a: "incr = 0 \<and> base < nPrimes"
    with st have "f nPrimes incr (base + incr)
        (queue @ [(base, min nPrimes (base + incr))]) (n_workers + 1) = Some y"
      by simp
    from IH [OF this] a show False by simp
  qed
qed

text \<open>
  Claim C8 fails on the code: with 100 primes in the table (\<open>sieveMax = 542\<close>) and
  \<open>primorialNumber = 40\<close> the increment \<open>nPrimes / 128\<close> is 0 and the dispatch loop never
  ends.
\<close>

theorem master_mod_dispatch_diverges:
  "master_mod_dispatch 100 40 = None"
proof -
  have "mod_dispatch_loop 100 (100 div 128) 40 [] 0 = None"
  proof (cases "mod_dispatch_loop 100 (100 div 128) 40 [] 0")
    case (Some r)
    from mod_dispatch_loop_stuck [OF this] show ?thesis by simp
  qed simp
  then show ?thesis by (simp add: master_mod_dispatch_def)
qed

section \<open>The sieve passes\<close>

lemma bind_run_simps [simp]:
  "bind_run None k = None"
  "bind_run (Some (Inl e)) k = Some (Inl e)"
  "bind_run (Some (Inr x)) k = k x"
  by (simp_all add: bind_run_def)

lemma unat_sieveSize': "unat riecoin_sieveSize = 16777216"
  by (simp add: riecoin_sieveSize_def riecoin_sieveBits_def)

lemma div_mod_8_eq: "(j div 8 = n div 8 \<and> j mod 8 = n mod 8) \<longleftrightarrow> j = (n :: nat)"
  by (metis div_mult_mod_eq)

lemma sieve_bit_set:
  "sieve_bit (sieve_set_bit sieve old) j \<longleftrightarrow> j = unat old \<or> sieve_bit sieve j"
proof -
  have d: "unat (drop_bit 3 old) = unat old div 8"
    by (simp add: unat_drop_bit_eq drop_bit_eq_div unat_div)
  have "old AND 7 = take_bit 3 old"
    by (simp add: take_bit_eq_mask mask_eq_exp_minus_1)
  then have m: "unat (old AND 7) = unat old mod 8"
    by (simp add: unsigned_take_bit_eq take_bit_eq_mod unat_mod)
  have b: "bit (x OR 2 ^ n) k \<longleftrightarrow> bit x k \<or> (k = n \<and> n < 8)" for x :: u8 and n k
    by (auto simp: bit_or_iff bit_exp_iff)
  have lt: "unat old mod 8 < 8" by simp
  show ?thesis
  proof (cases "j div 8 = unat old div 8")
    case True
    then show ?thesis
      using lt div_mod_8_eq [of j "unat old"]
      by (auto simp: sieve_bit_def sieve_set_bit_def d m b)
  next
    case False
    then have "j \<noteq> unat old" by auto
    then show ?thesis using False by (simp add: sieve_bit_def sieve_set_bit_def d)
  qed
qed

text \<open>Termination measure of the two loops, for any nonzero step.\<close>

lemma while_measure_decreases:
  assumes "p \<noteq> 0" "off < riecoin_sieveSize" "off + p < riecoin_sieveSize"
  shows "while_measure p (off + p) < while_measure p off"
proof -
  have o: "unat off < 2 ^ 24" using assms(2) by (simp add: word_less_nat_alt unat_sieveSize')
  have o2: "unat (off + p) < 2 ^ 24" using assms(3) by (simp add: word_less_nat_alt unat_sieveSize')
  have p0: "0 < unat p" using assms(1) by (simp add: unat_gt_0)
  have pl: "unat p < 2 ^ 32" using unsigned_less [of p, where ?'a = nat] by simp
  have s: "unat (off + p) = (if unat off + unat p < 2 ^ 32 then unat off + unat p
                             else unat off + unat p - 2 ^ 32)"
    using unat_plus_if' [of off p] by simp
  show ?thesis
  proof (cases "unat p < 2 ^ 32 - 2 ^ 24")
    case True
    then show ?thesis using o o2 p0 s by (simp add: while_measure_def split: if_splits)
  next
    case False
    then show ?thesis using o o2 p0 pl s by (simp add: while_measure_def split: if_splits)
  qed
qed

lemma pos_advance: "(pos + 1) AND (0xf :: u32) < 16"
proof -
  have "(pos + 1) AND 0xf \<le> (0xf :: u32)" by (rule word_and_le1)
  then show ?thesis by unat_arith
qed

lemma add_to_pending_rel:
  assumes "ring_rel sv_n sv_p pending pos" and "ent < riecoin_sieveSize"
  shows "\<exists>sv_p' pending' pos'. add_to_pending sv_p pending pos ent = Inr (sv_p', pending', pos') \<and>
           ring_rel (sieve_set_bit sv_n ent) sv_p' pending' pos' \<and>
           (sieve_bit sv_p' 0 \<longleftrightarrow> sieve_bit sv_p 0)"
proof -
  define old where "old = pending ! unat pos"
  have len: "length pending = 16" and pos: "unat pos < 16"
    and small: "\<forall>e \<in> set pending. e < riecoin_sieveSize"
    and bits: "\<And>j. j \<noteq> 0 \<Longrightarrow> sieve_bit sv_n j \<longleftrightarrow> sieve_bit sv_p j \<or> (\<exists>e \<in> set pending. unat e = j)"
    using assms(1) by (simp_all add: ring_rel_def word_less_nat_alt)
  have oldin: "old \<in> set pending" using len pos by (simp add: old_def)
  then have olds: "old < riecoin_sieveSize" using small by blast
  define sv_p' where "sv_p' = (if old \<noteq> 0 then sieve_set_bit sv_p old else sv_p)"
  define pending' where "pending' = pending[unat pos := ent]"
  have e: "add_to_pending sv_p pending pos ent = Inr (sv_p', pending', (pos + 1) AND 0xf)"
    using olds by (simp add: add_to_pending_def Let_def old_def sv_p'_def pending'_def)
  have set1: "set pending' \<subseteq> insert ent (set pending)"
    unfolding pending'_def by (rule set_update_subset_insert)
  have set2: "set pending \<subseteq> insert old (set pending')"
  proof
    fix x assume "x \<in> set pending"
    then obtain k where k: "k < length pending" "pending ! k = x" by (auto simp: in_set_conv_nth)
    show "x \<in> insert old (set pending')"
    proof (cases "k = unat pos")
      case True
      then show ?thesis using k by (simp add: old_def)
    next
      case False
      then have "pending' ! k = x" using k by (simp add: pending'_def)
      moreover have "k < length pending'" using k by (simp add: pending'_def)
      ultimately show ?thesis by (metis insertI2 nth_mem)
    qed
  qed
  have entin: "ent \<in> set pending'"
    using len pos by (simp add: pending'_def set_update_memI)
  have bit0: "sieve_bit sv_p' 0 \<longleftrightarrow> sieve_bit sv_p 0"
    by (auto simp: sv_p'_def sieve_bit_set unat_eq_0)
  have rel: "ring_rel (sieve_set_bit sv_n ent) sv_p' pending' ((pos + 1) AND 0xf)"
    unfolding ring_rel_def
  proof (intro conjI allI impI ballI)
    show "length pending' = 16" using len by (simp add: pending'_def)
    show "(pos + 1) AND 0xf < 16" by (rule pos_advance)
    show "e < riecoin_sieveSize" if "e \<in> set pending'" for e
      using that set1 small assms(2) by auto
    fix j :: nat assume j: "j \<noteq> 0"
    have old_j: "old \<noteq> 0" if "unat old = j" using that j by auto
    show "sieve_bit (sieve_set_bit sv_n ent) j \<longleftrightarrow>
        sieve_bit sv_p' j \<or> (\<exists>e \<in> set pending'. unat e = j)"
    proof
      assume "sieve_bit (sieve_set_bit sv_n ent) j"
      then consider "j = unat ent" | "sieve_bit sv_p j" | e where "e \<in> set pending" "unat e = j"
        using bits [OF j] by (auto simp: sieve_bit_set)
      then show "sieve_bit sv_p' j \<or> (\<exists>e \<in> set pending'. unat e = j)"
      proof cases
        case 1
        then show ?thesis using entin by auto
      next
        case 2
        then show ?thesis by (simp add: sv_p'_def sieve_bit_set)
      next
        case 3
        then have "e = old \<or> e \<in> set pending'" using set2 by auto
        then show ?thesis
        proof
          assume "e = old"
          then show ?thesis using 3 old_j by (simp add: sv_p'_def sieve_bit_set)
        next
          assume "e \<in> set pending'"
          then show ?thesis using 3 by auto
        qed
      qed
    next
      assume "sieve_bit sv_p' j \<or> (\<exists>e \<in> set pending'. unat e = j)"
      then consider "sieve_bit sv_p j" | "old \<noteq> 0" "j = unat old" | e where "e \<in> set pending'" "unat e = j"
        by (auto simp: sv_p'_def sieve_bit_set split: if_splits)
      then show "sieve_bit (sieve_set_bit sv_n ent) j"
      proof cases
        case 1
        then show ?thesis using bits [OF j] by (simp add: sieve_bit_set)
      next
        case 2
        then show ?thesis using bits [OF j] oldin by (auto simp: sieve_bit_set)
      next
        case 3
        then have "e = ent \<or> e \<in> set pending" using set1 by auto
        then show ?thesis using 3 bits [OF j] by (auto simp: sieve_bit_set)
      qed
    qed
  qed
  show ?thesis using e rel bit0 by blast
qed

lemma dense_while_done:
  "\<not> off < riecoin_sieveSize \<Longrightarrow> sieve_dense_while p sv off = Some (Inr (sv, off))"
  by (subst sieve_dense_while.simps) simp

lemma pending_while_done:
  "\<not> off < riecoin_sieveSize \<Longrightarrow>
     sieve_pending_while p sv pending pos off = Some (Inr (sv, pending, pos, off))"
  by (subst sieve_pending_while.simps) simp

lemma dense_while_step:
  "off < riecoin_sieveSize \<Longrightarrow>
     sieve_dense_while p sv off = sieve_dense_while p (sieve_set_bit sv off) (off + p)"
  by (subst sieve_dense_while.simps) simp

lemma pending_while_step:
  "off < riecoin_sieveSize \<Longrightarrow> add_to_pending sv pending pos off = Inr (sv1, pending1, pos1) \<Longrightarrow>
     sieve_pending_while p sv pending pos off = sieve_pending_while p sv1 pending1 pos1 (off + p)"
  by (subst sieve_pending_while.simps) simp

lemma while_sim:
  assumes "p \<noteq> 0" and "ring_rel sv_n sv_p pending pos"
  shows "\<exists>sv_n' sv_p' pending' pos' off'.
           sieve_dense_while p sv_n off = Some (Inr (sv_n', off')) \<and>
           sieve_pending_while p sv_p pending pos off = Some (Inr (sv_p', pending', pos', off')) \<and>
           ring_rel sv_n' sv_p' pending' pos' \<and> (sieve_bit sv_p' 0 \<longleftrightarrow> sieve_bit sv_p 0)"
  using assms(2)
proof (induction "while_measure p off" arbitrary: off sv_n sv_p pending pos rule: less_induct)
  case less
  show ?case
  proof (cases "off < riecoin_sieveSize")
    case False
    then show ?thesis using less.prems by (simp add: dense_while_done pending_while_done)
  next
    case True
    from add_to_pending_rel [OF less.prems True]
    obtain sv1 pending1 pos1 where st: "add_to_pending sv_p pending pos off = Inr (sv1, pending1, pos1)"
      "ring_rel (sieve_set_bit sv_n off) sv1 pending1 pos1" "sieve_bit sv1 0 \<longleftrightarrow> sieve_bit sv_p 0"
      by blast
    note d = dense_while_step [OF True, of p sv_n]
    note q = pending_while_step [OF True st(1), of p]
    show ?thesis
    proof (cases "off + p < riecoin_sieveSize")
      case False
      then show ?thesis using d q st(2,3) by (simp add: dense_while_done pending_while_done)
    next
      case next_in: True
      have "while_measure p (off + p) < while_measure p off"
        by (rule while_measure_decreases [OF assms(1) True next_in])
      from less.hyps [OF this st(2)] show ?thesis using d q st(3) by auto
    qed
  qed
qed

lemma dense_while_result:
  assumes "p \<noteq> 0" and "unat p < 2 ^ 31"
  shows "\<exists>k sv' off'.
           sieve_dense_while p sv off = Some (Inr (sv', off')) \<and>
           unat off' = unat off + k * unat p \<and> 2 ^ 24 \<le> unat off' \<and>
           (\<forall>i<k. unat off + i * unat p < 2 ^ 24) \<and>
           (\<forall>j. sieve_bit sv' j \<longleftrightarrow> sieve_bit sv j \<or> (\<exists>i<k. j = unat off + i * unat p))"
proof (induction "2 ^ 24 - unat off" arbitrary: off sv rule: less_induct)
  case less
  show ?case
  proof (cases "off < riecoin_sieveSize")
    case False
    then have "2 ^ 24 \<le> unat off" by (simp add: word_less_nat_alt unat_sieveSize')
    then have "sieve_dense_while p sv off = Some (Inr (sv, off)) \<and>
           unat off = unat off + 0 * unat p \<and> 2 ^ 24 \<le> unat off \<and>
           (\<forall>i<0. unat off + i * unat p < 2 ^ 24) \<and>
           (\<forall>j. sieve_bit sv j \<longleftrightarrow> sieve_bit sv j \<or> (\<exists>i<0. j = unat off + i * unat p))"
      using False by (simp add: dense_while_done)
    then show ?thesis by blast
  next
    case True
    then have o: "unat off < 2 ^ 24" by (simp add: word_less_nat_alt unat_sieveSize')
    have p0: "0 < unat p" using assms(1) by (simp add: unat_gt_0)
    have "unat off + unat p < 2 ^ 32" using o assms(2) by simp
    then have s: "unat (off + p) = unat off + unat p"
      by (simp add: unat_add_lem [THEN iffD1])
    have "2 ^ 24 - unat (off + p) < 2 ^ 24 - unat off" using s o p0 by simp
    from less.hyps [OF this, of "sieve_set_bit sv off"]
    obtain k sv' off' where r: "sieve_dense_while p (sieve_set_bit sv off) (off + p) = Some (Inr (sv', off'))"
      "unat off' = unat (off + p) + k * unat p" "2 ^ 24 \<le> unat off'"
      "\<forall>i<k. unat (off + p) + i * unat p < 2 ^ 24"
      "\<forall>j. sieve_bit sv' j \<longleftrightarrow> sieve_bit (sieve_set_bit sv off) j \<or> (\<exists>i<k. j = unat (off + p) + i * unat p)"
      by blast
    have a: "unat off' = unat off + Suc k * unat p" using r(2) s by simp
    have b: "\<forall>i<Suc k. unat off + i * unat p < 2 ^ 24"
    proof (intro allI impI)
      fix i assume "i < Suc k"
      show "unat off + i * unat p < 2 ^ 24"
      proof (cases i)
        case 0
        then show ?thesis using o by simp
      next
        case (Suc i')
        then have "i' < k" using \<open>i < Suc k\<close> by simp
        then show ?thesis using r(4) s Suc by (simp add: add.assoc)
      qed
    qed
    have c: "sieve_bit sv' j \<longleftrightarrow> sieve_bit sv j \<or> (\<exists>i<Suc k. j = unat off + i * unat p)" for j
    proof -
      have "(\<exists>i<Suc k. j = unat off + i * unat p) \<longleftrightarrow>
          j = unat off \<or> (\<exists>i<k. j = unat (off + p) + i * unat p)"
      proof
        assume "\<exists>i<Suc k. j = unat off + i * unat p"
        then obtain i where i: "i < Suc k" "j = unat off + i * unat p" by blast
        show "j = unat off \<or> (\<exists>i<k. j = unat (off + p) + i * unat p)"
        proof (cases i)
          case 0
          then show ?thesis using i by simp
        next
          case (Suc i')
          then have "i' < k" "j = unat (off + p) + i' * unat p" using i s by simp_all
          then show ?thesis by blast
        qed
      next
        assume "j = unat off \<or> (\<exists>i<k. j = unat (off + p) + i * unat p)"
        then show "\<exists>i<Suc k. j = unat off + i * unat p"
        proof
          assume "j = unat off"
          then have "0 < Suc k \<and> j = unat off + 0 * unat p" by simp
          then show ?thesis by blast
        next
          assume "\<exists>i<k. j = unat (off + p) + i * unat p"
          then obtain i where "i < k" "j = unat (off + p) + i * unat p" by blast
          then have "Suc i < Suc k \<and> j = unat off + Suc i * unat p" using s by simp
          then show ?thesis by blast
        qed
      qed
      then show ?thesis using r(5) by (auto simp: sieve_bit_set)
    qed
    have "sieve_dense_while p sv off = Some (Inr (sv', off'))"
      using dense_while_step [OF True, of p sv] r(1) by simp
    then show ?thesis using a r(3) b c by blast
  qed
qed

lemma biases_sim:
  assumes "p \<noteq> 0" and "ring_rel sv_n sv_p pending pos"
  shows "\<exists>sv_n' sv_p' pending' pos' offs'.
           dense_sieve_biases p pno fs sv_n offs = Some (Inr (sv_n', offs')) \<and>
           process_sieve_biases p pno fs sv_p pending pos offs
             = Some (Inr (sv_p', pending', pos', offs')) \<and>
           ring_rel sv_n' sv_p' pending' pos' \<and> (sieve_bit sv_p' 0 \<longleftrightarrow> sieve_bit sv_p 0) \<and>
           length offs' = length offs"
  using assms(2)
proof (induction fs arbitrary: sv_n sv_p pending pos offs)
  case Nil
  then show ?case by simp
next
  case (Cons f fs)
  from while_sim [OF assms(1) Cons.prems, of "offs ! pno ! f"]
  obtain sv_n1 sv_p1 pending1 pos1 off1 where w:
    "sieve_dense_while p sv_n (offs ! pno ! f) = Some (Inr (sv_n1, off1))"
    "sieve_pending_while p sv_p pending pos (offs ! pno ! f) = Some (Inr (sv_p1, pending1, pos1, off1))"
    "ring_rel sv_n1 sv_p1 pending1 pos1" "sieve_bit sv_p1 0 \<longleftrightarrow> sieve_bit sv_p 0"
    by blast
  from Cons.IH [OF w(3), of "offs[pno := (offs ! pno)[f := off1 - riecoin_sieveSize]]"]
  show ?case using w(1,2,4) by auto
qed

lemma primes_sim:
  assumes "\<forall>i \<in> set is. unat (of_nat i + startingPrimeIndex g :: u32) < length (primes g) \<and>
             unat (of_nat i + startingPrimeIndex g :: u32) < length offs \<and>
             primes g ! unat (of_nat i + startingPrimeIndex g :: u32) \<noteq> 0"
    and "ring_rel sv_n sv_p pending pos"
  shows "\<exists>sv_n' sv_p' pending' pos' offs'.
           reference_sieve_primes g is sv_n offs = Some (Inr (sv_n', offs')) \<and>
           process_sieve_primes g is sv_p pending pos offs
             = Some (Inr (sv_p', pending', pos', offs')) \<and>
           ring_rel sv_n' sv_p' pending' pos' \<and> (sieve_bit sv_p' 0 \<longleftrightarrow> sieve_bit sv_p 0) \<and>
           length offs' = length offs"
  using assms
proof (induction "is" arbitrary: sv_n sv_p pending pos offs)
  case Nil
  then show ?case by simp
next
  case (Cons i "is")
  define pno where "pno = unat (of_nat i + startingPrimeIndex g :: u32)"
  have i: "pno < length (primes g)" "pno < length offs" "primes g ! pno \<noteq> 0"
    using Cons.prems(1) by (simp_all add: pno_def)
  from biases_sim [OF i(3) Cons.prems(2), of pno "[0..<6]" offs]
  obtain sv_n1 sv_p1 pending1 pos1 offs1 where b:
    "dense_sieve_biases (primes g ! pno) pno [0..<6] sv_n offs = Some (Inr (sv_n1, offs1))"
    "process_sieve_biases (primes g ! pno) pno [0..<6] sv_p pending pos offs
       = Some (Inr (sv_p1, pending1, pos1, offs1))"
    "ring_rel sv_n1 sv_p1 pending1 pos1" "sieve_bit sv_p1 0 \<longleftrightarrow> sieve_bit sv_p 0"
    "length offs1 = length offs"
    by blast
  have rest: "\<forall>i \<in> set is. unat (of_nat i + startingPrimeIndex g :: u32) < length (primes g) \<and>
             unat (of_nat i + startingPrimeIndex g :: u32) < length offs1 \<and>
             primes g ! unat (of_nat i + startingPrimeIndex g :: u32) \<noteq> 0"
    using Cons.prems(1) b(5) by simp
  from Cons.IH [OF rest b(3)]
  obtain sv_n' sv_p' pending' pos' offs' where r:
    "reference_sieve_primes g is sv_n1 offs1 = Some (Inr (sv_n', offs'))"
    "process_sieve_primes g is sv_p1 pending1 pos1 offs1 = Some (Inr (sv_p', pending', pos', offs'))"
    "ring_rel sv_n' sv_p' pending' pos'" "sieve_bit sv_p' 0 \<longleftrightarrow> sieve_bit sv_p1 0"
    "length offs' = length offs1"
    by blast
  have "reference_sieve_primes g (i # is) sv_n offs = Some (Inr (sv_n', offs'))"
    using i b(1) r(1) by (simp add: Let_def pno_def [symmetric])
  moreover have "process_sieve_primes g (i # is) sv_p pending pos offs
      = Some (Inr (sv_p', pending', pos', offs'))"
    using i b(2) r(2) by (simp add: Let_def pno_def [symmetric])
  ultimately show ?case using r(3,4,5) b(4,5) by simp
qed

lemma flush_pending_bits:
  assumes "\<forall>e \<in> set pending. e < riecoin_sieveSize"
  shows "\<exists>sv'. flush_pending sv pending = Inr sv' \<and>
           (\<forall>j. sieve_bit sv' j \<longleftrightarrow> sieve_bit sv j \<or> (j \<noteq> 0 \<and> (\<exists>e \<in> set pending. unat e = j)))"
  using assms
proof (induction pending arbitrary: sv)
  case Nil
  then show ?case by simp
next
  case (Cons old rest)
  show ?case
  proof (cases "old = 0")
    case True
    from Cons.IH [of sv] Cons.prems show ?thesis using True by auto
  next
    case False
    then have nz: "unat old \<noteq> 0" by (simp add: unat_eq_0)
    from Cons.IH [of "sieve_set_bit sv old"] Cons.prems
    obtain sv' where s: "flush_pending (sieve_set_bit sv old) rest = Inr sv'"
      "\<forall>j. sieve_bit sv' j \<longleftrightarrow> sieve_bit (sieve_set_bit sv old) j \<or>
           (j \<noteq> 0 \<and> (\<exists>e \<in> set rest. unat e = j))"
      by auto
    have "flush_pending sv (old # rest) = Inr sv'"
      using False Cons.prems s(1) by simp
    moreover have "sieve_bit sv' j \<longleftrightarrow> sieve_bit sv j \<or> (j \<noteq> 0 \<and> (\<exists>e \<in> set (old # rest). unat e = j))" for j
      using s(2) nz by (auto simp: sieve_bit_set)
    ultimately show ?thesis by blast
  qed
qed

lemma ring_rel_init: "ring_rel sv sv init_pending 0"
  by (auto simp: ring_rel_def init_pending_def PENDING_SIZE_def riecoin_sieveSize_def
      riecoin_sieveBits_def unat_eq_0)

lemma sieve_ring_refines:
  assumes "\<forall>i. unat start_i \<le> i \<and> i < unat end_i \<longrightarrow>
             unat (of_nat i + startingPrimeIndex g :: u32) < length (primes g) \<and>
             unat (of_nat i + startingPrimeIndex g :: u32) < length offs \<and>
             primes g ! unat (of_nat i + startingPrimeIndex g :: u32) \<noteq> 0"
  shows "\<exists>sv_p sv_n offs'.
           process_sieve g sieve start_i end_i offs = Some (Inr (sv_p, offs')) \<and>
           reference_sieve g sieve start_i end_i offs = Some (Inr (sv_n, offs')) \<and>
           (\<forall>j. j \<noteq> 0 \<longrightarrow> (sieve_bit sv_p j \<longleftrightarrow> sieve_bit sv_n j)) \<and>
           (sieve_bit sv_p 0 \<longleftrightarrow> sieve_bit sieve 0)"
proof -
  have rng: "\<forall>i \<in> set [unat start_i..<unat end_i].
             unat (of_nat i + startingPrimeIndex g :: u32) < length (primes g) \<and>
             unat (of_nat i + startingPrimeIndex g :: u32) < length offs \<and>
             primes g ! unat (of_nat i + startingPrimeIndex g :: u32) \<noteq> 0"
    using assms by simp
  from primes_sim [OF rng ring_rel_init, of sieve]
  obtain sv_n sv_p1 pending1 pos1 offs' where r:
    "reference_sieve_primes g [unat start_i..<unat end_i] sieve offs = Some (Inr (sv_n, offs'))"
    "process_sieve_primes g [unat start_i..<unat end_i] sieve init_pending 0 offs
       = Some (Inr (sv_p1, pending1, pos1, offs'))"
    "ring_rel sv_n sv_p1 pending1 pos1" "sieve_bit sv_p1 0 \<longleftrightarrow> sieve_bit sieve 0"
    by blast
  have small: "\<forall>e \<in> set pending1. e < riecoin_sieveSize"
    and bits: "\<And>j. j \<noteq> 0 \<Longrightarrow> sieve_bit sv_n j \<longleftrightarrow> sieve_bit sv_p1 j \<or> (\<exists>e \<in> set pending1. unat e = j)"
    using r(3) by (simp_all add: ring_rel_def)
  from flush_pending_bits [OF small, of sv_p1]
  obtain sv_p where f: "flush_pending sv_p1 pending1 = Inr sv_p"
    "\<forall>j. sieve_bit sv_p j \<longleftrightarrow> sieve_bit sv_p1 j \<or> (j \<noteq> 0 \<and> (\<exists>e \<in> set pending1. unat e = j))"
    by blast
  have "process_sieve g sieve start_i end_i offs = Some (Inr (sv_p, offs'))"
    using r(2) f(1) by (simp add: process_sieve_def)
  moreover have "reference_sieve g sieve start_i end_i offs = Some (Inr (sv_n, offs'))"
    using r(1) by (simp add: reference_sieve_def)
  moreover have "\<forall>j. j \<noteq> 0 \<longrightarrow> (sieve_bit sv_p j \<longleftrightarrow> sieve_bit sv_n j)"
    using f(2) bits by auto
  moreover have "sieve_bit sv_p 0 \<longleftrightarrow> sieve_bit sieve 0"
    using f(2) r(4) by simp
  ultimately show ?thesis by blast
qed

lemma dense_offset_pass:
  assumes "p \<noteq> 0" and "unat p < 2 ^ 29" and "off < p"
  shows "\<exists>sv' off1. sieve_dense_while p sv off = Some (Inr (sv', off1)) \<and>
           advanced p off (off1 - riecoin_sieveSize) \<and>
           (\<forall>j. sieve_bit sv' j \<longleftrightarrow> sieve_bit sv j \<or> hit p off j) \<and>
           riecoin_sieveSize \<le> off1 \<and> (\<exists>k. unat off1 = unat off + k * unat p)"
proof -
  have p31: "unat p < 2 ^ 31" using assms(2) by simp
  have p0: "0 < unat p" using assms(1) by (simp add: unat_gt_0)
  have op: "unat off < unat p" using assms(3) by (simp add: word_less_nat_alt)
  from dense_while_result [OF assms(1) p31, of sv off]
  obtain k sv' off1 where r: "sieve_dense_while p sv off = Some (Inr (sv', off1))"
    "unat off1 = unat off + k * unat p" "2 ^ 24 \<le> unat off1"
    "\<forall>i<k. unat off + i * unat p < 2 ^ 24"
    "\<forall>j. sieve_bit sv' j \<longleftrightarrow> sieve_bit sv j \<or> (\<exists>i<k. j = unat off + i * unat p)"
    by blast
  have ge: "riecoin_sieveSize \<le> off1" using r(3) by (simp add: word_le_nat_alt unat_sieveSize')
  then have sub: "unat (off1 - riecoin_sieveSize) = unat off1 - 2 ^ 24"
    by (simp add: unat_sub unat_sieveSize')
  have lt: "unat off1 - 2 ^ 24 < unat p"
  proof (cases k)
    case 0
    then show ?thesis using r(2) op by simp
  next
    case (Suc k')
    then have "unat off + k' * unat p < 2 ^ 24" using r(4) by simp
    moreover have "unat off1 = (unat off + k' * unat p) + unat p" using r(2) Suc by simp
    ultimately show ?thesis using p0 by linarith
  qed
  have adv: "advanced p off (off1 - riecoin_sieveSize)"
    unfolding advanced_def
  proof
    show "off1 - riecoin_sieveSize < p" using lt sub by (simp add: word_less_nat_alt)
    have "unat (off1 - riecoin_sieveSize) + 2 ^ 24 = unat off + k * unat p"
      using sub r(2,3) by simp
    then show "\<exists>k. unat (off1 - riecoin_sieveSize) + 2 ^ 24 = unat off + k * unat p" by blast
  qed
  have h: "(\<exists>i<k. j = unat off + i * unat p) \<longleftrightarrow> hit p off j" for j
  proof
    assume "\<exists>i<k. j = unat off + i * unat p"
    then show "hit p off j" using r(4) by (auto simp: hit_def)
  next
    assume "hit p off j"
    then obtain i where i: "j < 2 ^ 24" "j = unat off + i * unat p" by (auto simp: hit_def)
    then have "unat off + i * unat p < unat off + k * unat p" using r(2,3) by linarith
    then have "i * unat p < k * unat p" by linarith
    then have "i < k" using p0 by (simp only: mult_less_cancel2)
    then show "\<exists>i<k. j = unat off + i * unat p" using i by blast
  qed
  show ?thesis using r(1,2) adv ge h r(5) by blast
qed

lemma dense_biases_pass:
  assumes "p \<noteq> 0" and "unat p < 2 ^ 29" and "pno < length offs" and "length (offs ! pno) = 6"
    and "\<forall>f<6. offs ! pno ! f < p" and "distinct fs" and "\<forall>f \<in> set fs. f < 6"
  shows "\<exists>sv' offs'. dense_sieve_biases p pno fs sv offs = Some (Inr (sv', offs')) \<and>
           length offs' = length offs \<and> (\<forall>q. q \<noteq> pno \<longrightarrow> offs' ! q = offs ! q) \<and>
           length (offs' ! pno) = 6 \<and>
           (\<forall>f<6. if f \<in> set fs then advanced p (offs ! pno ! f) (offs' ! pno ! f)
                   else offs' ! pno ! f = offs ! pno ! f) \<and>
           (\<forall>j. sieve_bit sv' j \<longleftrightarrow> sieve_bit sv j \<or> (\<exists>f \<in> set fs. hit p (offs ! pno ! f) j))"
  using assms(3-7)
proof (induction fs arbitrary: sv offs)
  case Nil
  then show ?case by simp
next
  case (Cons f fs)
  have f6: "f < 6" and fn: "f \<notin> set fs" using Cons.prems by simp_all
  have off: "offs ! pno ! f < p" using Cons.prems(3) f6 by simp
  from dense_offset_pass [OF assms(1,2) off, of sv]
  obtain sv1 off1 where w: "sieve_dense_while p sv (offs ! pno ! f) = Some (Inr (sv1, off1))"
    "advanced p (offs ! pno ! f) (off1 - riecoin_sieveSize)"
    "\<forall>j. sieve_bit sv1 j \<longleftrightarrow> sieve_bit sv j \<or> hit p (offs ! pno ! f) j"
    by blast
  define offs1 where "offs1 = offs[pno := (offs ! pno)[f := off1 - riecoin_sieveSize]]"
  have row1: "offs1 ! pno = (offs ! pno)[f := off1 - riecoin_sieveSize]"
    using Cons.prems(1) by (simp add: offs1_def)
  have at: "offs1 ! pno ! f' = (if f' = f then off1 - riecoin_sieveSize else offs ! pno ! f')"
    if "f' < 6" for f'
    using that Cons.prems(2) by (simp add: row1 nth_list_update)
  have lt1: "\<forall>f'<6. offs1 ! pno ! f' < p"
    using at Cons.prems(3) w(2) by (simp add: advanced_def)
  have pre: "pno < length offs1" "length (offs1 ! pno) = 6"
    using Cons.prems(1,2) by (simp_all add: offs1_def)
  from Cons.IH [OF pre lt1, of sv1] Cons.prems(4,5)
  obtain sv' offs' where r: "dense_sieve_biases p pno fs sv1 offs1 = Some (Inr (sv', offs'))"
    "length offs' = length offs1" "\<forall>q. q \<noteq> pno \<longrightarrow> offs' ! q = offs1 ! q"
    "length (offs' ! pno) = 6"
    "\<forall>f'<6. if f' \<in> set fs then advanced p (offs1 ! pno ! f') (offs' ! pno ! f')
                   else offs' ! pno ! f' = offs1 ! pno ! f'"
    "\<forall>j. sieve_bit sv' j \<longleftrightarrow> sieve_bit sv1 j \<or> (\<exists>f' \<in> set fs. hit p (offs1 ! pno ! f') j)"
    by auto
  have e: "dense_sieve_biases p pno (f # fs) sv offs = Some (Inr (sv', offs'))"
    using w(1) r(1) by (simp add: offs1_def)
  have same: "offs1 ! pno ! f' = offs ! pno ! f'" if "f' \<in> set fs" for f'
    using that at fn Cons.prems(5) by auto
  have a: "\<forall>f'<6. if f' \<in> set (f # fs) then advanced p (offs ! pno ! f') (offs' ! pno ! f')
                   else offs' ! pno ! f' = offs ! pno ! f'"
  proof (intro allI impI)
    fix f' :: nat assume f': "f' < 6"
    show "if f' \<in> set (f # fs) then advanced p (offs ! pno ! f') (offs' ! pno ! f')
                   else offs' ! pno ! f' = offs ! pno ! f'"
    proof (cases "f' = f")
      case True
      then have "offs' ! pno ! f' = off1 - riecoin_sieveSize"
        using r(5) f' fn at by auto
      then show ?thesis using True w(2) by simp
    next
      case False
      then show ?thesis using r(5) f' at same by auto
    qed
  qed
  have b: "sieve_bit sv' j \<longleftrightarrow> sieve_bit sv j \<or> (\<exists>f' \<in> set (f # fs). hit p (offs ! pno ! f') j)" for j
    using r(6) w(3) same by auto
  have c: "\<forall>q. q \<noteq> pno \<longrightarrow> offs' ! q = offs ! q"
    using r(3) by (simp add: offs1_def)
  show ?case using e r(2,4) a b c by (simp add: offs1_def)
qed

lemma set_row6: "length row = 6 \<Longrightarrow> set row = {row ! f | f. f < 6}"
  by (auto simp: set_conv_nth)

lemma prime_step:
  assumes "p \<noteq> 0" and "unat p < 2 ^ 29" and "q < length offs" and "length row0 = 6"
    and "\<forall>v \<in> set row0. v < p"
  shows "\<exists>sv' offs'. dense_sieve_biases p q [0..<6] sv (offs[q := row0]) = Some (Inr (sv', offs')) \<and>
           length offs' = length offs \<and> (\<forall>r. r \<noteq> q \<longrightarrow> offs' ! r = offs ! r) \<and>
           length (offs' ! q) = 6 \<and>
           (\<forall>v \<in> set row0. \<exists>v' \<in> set (offs' ! q). advanced p v v') \<and>
           (\<forall>v' \<in> set (offs' ! q). \<exists>v \<in> set row0. advanced p v v') \<and>
           (\<forall>j. sieve_bit sv' j \<longleftrightarrow> sieve_bit sv j \<or> (\<exists>v \<in> set row0. hit p v j))"
proof -
  let ?offs0 = "offs[q := row0]"
  have pre: "q < length ?offs0" "length (?offs0 ! q) = 6" "\<forall>f<6. ?offs0 ! q ! f < p"
    using assms(3,4,5) by simp_all
  from dense_biases_pass [OF assms(1,2) pre, of "[0..<6]" sv]
  obtain sv' offs' where r: "dense_sieve_biases p q [0..<6] sv ?offs0 = Some (Inr (sv', offs'))"
    "length offs' = length ?offs0" "\<forall>r. r \<noteq> q \<longrightarrow> offs' ! r = ?offs0 ! r"
    "length (offs' ! q) = 6"
    "\<forall>f<6. advanced p (?offs0 ! q ! f) (offs' ! q ! f)"
    "\<forall>j. sieve_bit sv' j \<longleftrightarrow> sieve_bit sv j \<or> (\<exists>f \<in> set [0..<6]. hit p (?offs0 ! q ! f) j)"
    by auto
  have row: "?offs0 ! q = row0" using assms(3) by simp
  have adv: "\<And>f. f < 6 \<Longrightarrow> advanced p (row0 ! f) (offs' ! q ! f)"
    using r(5) row by simp
  have a: "\<forall>v \<in> set row0. \<exists>v' \<in> set (offs' ! q). advanced p v v'"
  proof
    fix v assume "v \<in> set row0"
    then obtain f where f: "f < 6" "row0 ! f = v"
      using assms(4) by (auto simp: in_set_conv_nth)
    then have "offs' ! q ! f \<in> set (offs' ! q)" using r(4) by simp
    then show "\<exists>v' \<in> set (offs' ! q). advanced p v v'" using adv [OF f(1)] f(2) by auto
  qed
  have b: "\<forall>v' \<in> set (offs' ! q). \<exists>v \<in> set row0. advanced p v v'"
  proof
    fix v' assume "v' \<in> set (offs' ! q)"
    then obtain f where f: "f < 6" "offs' ! q ! f = v'"
      using r(4) by (auto simp: in_set_conv_nth)
    then have "row0 ! f \<in> set row0" using assms(4) by simp
    then show "\<exists>v \<in> set row0. advanced p v v'" using adv [OF f(1)] f(2) by auto
  qed
  have "(\<exists>f \<in> set [0..<6]. hit p (row0 ! f) j) \<longleftrightarrow> (\<exists>v \<in> set row0. hit p v j)" for j
  proof
    assume "\<exists>f \<in> set [0..<6]. hit p (row0 ! f) j"
    then obtain f where f: "f < 6" "hit p (row0 ! f) j" by auto
    then have "row0 ! f \<in> set row0" using assms(4) by simp
    then show "\<exists>v \<in> set row0. hit p v j" using f(2) by auto
  next
    assume "\<exists>v \<in> set row0. hit p v j"
    then obtain v where v: "v \<in> set row0" "hit p v j" by auto
    then obtain f where f: "f < 6" "row0 ! f = v"
      using assms(4) by (auto simp: in_set_conv_nth)
    then show "\<exists>f \<in> set [0..<6]. hit p (row0 ! f) j" using v(2) by auto
  qed
  then have c: "sieve_bit sv' j \<longleftrightarrow> sieve_bit sv j \<or> (\<exists>v \<in> set row0. hit p v j)" for j
    using r(6) unfolding row by simp
  have d: "\<forall>r. r \<noteq> q \<longrightarrow> offs' ! r = offs ! r" using r(3) by simp
  show ?thesis using r(1,2,4) a b c d by simp
qed

lemma set_swap_u32:
  "i < length xs \<Longrightarrow> j < length xs \<Longrightarrow>
     length (xs[i := xs ! j, j := xs ! i]) = length xs \<and> set (xs[i := xs ! j, j := xs ! i]) = set xs"
  by (simp add: set_swap)

lemma silly_sort_inner_set:
  "i < length xs \<Longrightarrow> \<forall>j \<in> set js. j < length xs \<Longrightarrow>
     length (silly_sort_inner i js xs) = length xs \<and> set (silly_sort_inner i js xs) = set xs"
proof (induction js arbitrary: xs)
  case Nil
  then show ?case by simp
next
  case (Cons j js)
  let ?ys = "(if xs ! j < xs ! i then xs[i := xs ! j, j := xs ! i] else xs)"
  have ys: "length ?ys = length xs \<and> set ?ys = set xs"
    using Cons.prems set_swap_u32 [of i xs j] by simp
  then have "length (silly_sort_inner i js ?ys) = length ?ys \<and> set (silly_sort_inner i js ?ys) = set ?ys"
    using Cons.prems by (intro Cons.IH) simp_all
  then show ?case using ys by simp
qed

lemma silly_sort_outer_set:
  "length xs = 6 \<Longrightarrow> \<forall>i \<in> set is. i < 6 \<Longrightarrow>
     length (silly_sort_outer is xs) = 6 \<and> set (silly_sort_outer is xs) = set xs"
proof (induction "is" arbitrary: xs)
  case Nil
  then show ?case by simp
next
  case (Cons i "is")
  have "length (silly_sort_inner i [i + 1..<6] xs) = length xs \<and>
        set (silly_sort_inner i [i + 1..<6] xs) = set xs"
    using Cons.prems by (intro silly_sort_inner_set) simp_all
  then show ?case using Cons.IH [of "silly_sort_inner i [i + 1..<6] xs"] Cons.prems by simp
qed

lemma silly_sort_indexes_set:
  "length xs = 6 \<Longrightarrow> length (silly_sort_indexes xs) = 6 \<and> set (silly_sort_indexes xs) = set xs"
  unfolding silly_sort_indexes_def by (rule silly_sort_outer_set) simp_all

lemma rows_advanced_step:
  assumes ok: "rows_ok g (i # is) offs"
    and len1: "length offs1 = length offs"
    and oth1: "\<forall>r. r \<noteq> pno_of g i \<longrightarrow> offs1 ! r = offs ! r"
    and row1: "length (offs1 ! pno_of g i) = 6"
    and fw1: "\<forall>v \<in> set (offs ! pno_of g i). \<exists>v' \<in> set (offs1 ! pno_of g i).
               advanced (primes g ! pno_of g i) v v'"
    and bw1: "\<forall>v' \<in> set (offs1 ! pno_of g i). \<exists>v \<in> set (offs ! pno_of g i).
               advanced (primes g ! pno_of g i) v v'"
  shows "rows_ok g is offs1"
    and "rows_advanced g is offs1 offs' \<Longrightarrow> rows_advanced g (i # is) offs offs'"
    and "marked_by g (i # is) offs j \<longleftrightarrow>
           (\<exists>v \<in> set (offs ! pno_of g i). hit (primes g ! pno_of g i) v j) \<or> marked_by g is offs1 j"
proof -
  have dist: "pno_of g i \<notin> pno_of g ` set is" "distinct (map (pno_of g) is)"
    using ok by (simp_all add: rows_ok_def)
  have same: "offs1 ! pno_of g k = offs ! pno_of g k" if "k \<in> set is" for k
    using that dist(1) oth1 by (metis image_eqI)
  show "rows_ok g is offs1"
    using ok dist(2) len1 same by (simp add: rows_ok_def)
  show "marked_by g (i # is) offs j \<longleftrightarrow>
           (\<exists>v \<in> set (offs ! pno_of g i). hit (primes g ! pno_of g i) v j) \<or> marked_by g is offs1 j"
    using same by (simp add: marked_by_def)
  assume adv: "rows_advanced g is offs1 offs'"
  have keep: "offs' ! pno_of g i = offs1 ! pno_of g i"
    using adv dist(1) by (simp add: rows_advanced_def)
  show "rows_advanced g (i # is) offs offs'"
    unfolding rows_advanced_def
  proof (intro conjI allI impI ballI)
    show "length offs' = length offs" using adv len1 by (simp add: rows_advanced_def)
  next
    fix q assume "q \<notin> pno_of g ` set (i # is)"
    then have "q \<noteq> pno_of g i" "q \<notin> pno_of g ` set is" by auto
    then show "offs' ! q = offs ! q" using adv oth1 by (simp add: rows_advanced_def)
  next
    fix k assume k: "k \<in> set (i # is)"
    show "length (offs' ! pno_of g k) = 6"
    proof (cases "pno_of g k = pno_of g i")
      case True
      then show ?thesis using keep row1 by simp
    next
      case False
      then have "k \<in> set is" using k by auto
      then show ?thesis using adv by (simp add: rows_advanced_def)
    qed
  next
    fix k v assume k: "k \<in> set (i # is)" and v: "v \<in> set (offs ! pno_of g k)"
    show "\<exists>v' \<in> set (offs' ! pno_of g k). advanced (primes g ! pno_of g k) v v'"
    proof (cases "pno_of g k = pno_of g i")
      case True
      then show ?thesis using keep fw1 v by simp
    next
      case False
      then have kin: "k \<in> set is" using k by auto
      then have "v \<in> set (offs1 ! pno_of g k)" using v same by simp
      then show ?thesis using adv kin by (simp add: rows_advanced_def)
    qed
  next
    fix k v' assume k: "k \<in> set (i # is)" and v': "v' \<in> set (offs' ! pno_of g k)"
    show "\<exists>v \<in> set (offs ! pno_of g k). advanced (primes g ! pno_of g k) v v'"
    proof (cases "pno_of g k = pno_of g i")
      case True
      then show ?thesis using keep bw1 v' by simp
    next
      case False
      then have kin: "k \<in> set is" using k by auto
      then have "\<exists>v \<in> set (offs1 ! pno_of g k). advanced (primes g ! pno_of g k) v v'"
        using adv v' by (simp add: rows_advanced_def)
      then show ?thesis using same [OF kin] by simp
    qed
  qed
qed

lemma rows_advanced_Nil: "rows_advanced g [] offs offs"
  by (simp add: rows_advanced_def)

lemma reference_primes_pass:
  assumes "rows_ok g is offs"
  shows "\<exists>sv' offs'. reference_sieve_primes g is sv offs = Some (Inr (sv', offs')) \<and>
           rows_advanced g is offs offs' \<and>
           (\<forall>j. sieve_bit sv' j \<longleftrightarrow> sieve_bit sv j \<or> marked_by g is offs j)"
  using assms
proof (induction "is" arbitrary: sv offs)
  case Nil
  then show ?case by (simp add: rows_advanced_Nil marked_by_def)
next
  case (Cons i "is")
  define q where "q = pno_of g i"
  define p where "p = primes g ! q"
  have i: "q < length (primes g)" "q < length offs" "length (offs ! q) = 6" "p \<noteq> 0"
    "unat p < 2 ^ 29" "\<forall>v \<in> set (offs ! q). v < p"
    using Cons.prems by (simp_all add: rows_ok_def q_def p_def)
  from prime_step [OF i(4,5,2,3,6), of sv]
  obtain sv1 offs1 where s: "dense_sieve_biases p q [0..<6] sv offs = Some (Inr (sv1, offs1))"
    "length offs1 = length offs" "\<forall>r. r \<noteq> q \<longrightarrow> offs1 ! r = offs ! r"
    "length (offs1 ! q) = 6"
    "\<forall>v \<in> set (offs ! q). \<exists>v' \<in> set (offs1 ! q). advanced p v v'"
    "\<forall>v' \<in> set (offs1 ! q). \<exists>v \<in> set (offs ! q). advanced p v v'"
    "\<forall>j. sieve_bit sv1 j \<longleftrightarrow> sieve_bit sv j \<or> (\<exists>v \<in> set (offs ! q). hit p v j)"
    by auto
  note st = rows_advanced_step [OF Cons.prems s(2) s(3) [unfolded q_def] s(4) [unfolded q_def]
      s(5) [unfolded q_def p_def] s(6) [unfolded q_def p_def]]
  from Cons.IH [OF st(1), of sv1]
  obtain sv' offs' where r: "reference_sieve_primes g is sv1 offs1 = Some (Inr (sv', offs'))"
    "rows_advanced g is offs1 offs'"
    "\<forall>j. sieve_bit sv' j \<longleftrightarrow> sieve_bit sv1 j \<or> marked_by g is offs1 j"
    by blast
  have e: "reference_sieve_primes g (i # is) sv offs = Some (Inr (sv', offs'))"
    using i(1,2) s(1) r(1) by (simp add: Let_def pno_of_def [symmetric] q_def [symmetric] p_def [symmetric])
  have m: "sieve_bit sv' j \<longleftrightarrow> sieve_bit sv j \<or> marked_by g (i # is) offs j" for j
    using r(3) s(7) st(3) [of j] by (simp add: q_def p_def)
  show ?case using e st(2) [OF r(2)] m by blast
qed

lemma dense_primes_pass:
  assumes "rows_ok g is offs"
  shows "\<exists>sv' offs'. dense_sieve_primes g is sv offs = Some (Inr (sv', offs')) \<and>
           rows_advanced g is offs offs' \<and>
           (\<forall>j. sieve_bit sv' j \<longleftrightarrow> sieve_bit sv j \<or> marked_by g is offs j)"
  using assms
proof (induction "is" arbitrary: sv offs)
  case Nil
  then show ?case by (simp add: rows_advanced_Nil marked_by_def)
next
  case (Cons i "is")
  define q where "q = pno_of g i"
  define p where "p = primes g ! q"
  define row0 where "row0 = silly_sort_indexes (offs ! q)"
  have i: "q < length (primes g)" "q < length offs" "length (offs ! q) = 6" "p \<noteq> 0"
    "unat p < 2 ^ 29" "\<forall>v \<in> set (offs ! q). v < p"
    using Cons.prems by (simp_all add: rows_ok_def q_def p_def)
  have row0: "length row0 = 6" "set row0 = set (offs ! q)"
    using silly_sort_indexes_set [OF i(3)] by (simp_all add: row0_def)
  have lt0: "\<forall>v \<in> set row0. v < p" using i(6) row0(2) by simp
  from prime_step [OF i(4,5,2) row0(1) lt0, of sv]
  obtain sv1 offs1 where s: "dense_sieve_biases p q [0..<6] sv (offs[q := row0]) = Some (Inr (sv1, offs1))"
    "length offs1 = length offs" "\<forall>r. r \<noteq> q \<longrightarrow> offs1 ! r = offs ! r"
    "length (offs1 ! q) = 6"
    "\<forall>v \<in> set (offs ! q). \<exists>v' \<in> set (offs1 ! q). advanced p v v'"
    "\<forall>v' \<in> set (offs1 ! q). \<exists>v \<in> set (offs ! q). advanced p v v'"
    "\<forall>j. sieve_bit sv1 j \<longleftrightarrow> sieve_bit sv j \<or> (\<exists>v \<in> set (offs ! q). hit p v j)"
    unfolding row0(2) by auto
  note st = rows_advanced_step [OF Cons.prems s(2) s(3) [unfolded q_def] s(4) [unfolded q_def]
      s(5) [unfolded q_def p_def] s(6) [unfolded q_def p_def]]
  from Cons.IH [OF st(1), of sv1]
  obtain sv' offs' where r: "dense_sieve_primes g is sv1 offs1 = Some (Inr (sv', offs'))"
    "rows_advanced g is offs1 offs'"
    "\<forall>j. sieve_bit sv' j \<longleftrightarrow> sieve_bit sv1 j \<or> marked_by g is offs1 j"
    by blast
  have e: "dense_sieve_primes g (i # is) sv offs = Some (Inr (sv', offs'))"
    using i(1,2) s(1) r(1)
    by (simp add: Let_def pno_of_def [symmetric] q_def [symmetric] p_def [symmetric] row0_def [symmetric])
  have m: "sieve_bit sv' j \<longleftrightarrow> sieve_bit sv j \<or> marked_by g (i # is) offs j" for j
    using r(3) s(7) st(3) [of j] by (simp add: q_def p_def)
  show ?case using e st(2) [OF r(2)] m by blast
qed

lemma process_sieve_pass:
  assumes "rows_ok g [unat start_i..<unat end_i] offs"
  shows "\<exists>sv' offs'. process_sieve g sv start_i end_i offs = Some (Inr (sv', offs')) \<and>
           rows_advanced g [unat start_i..<unat end_i] offs offs' \<and>
           (\<forall>j. j \<noteq> 0 \<longrightarrow>
              (sieve_bit sv' j \<longleftrightarrow> sieve_bit sv j \<or> marked_by g [unat start_i..<unat end_i] offs j)) \<and>
           (sieve_bit sv' 0 \<longleftrightarrow> sieve_bit sv 0)"
proof -
  let ?is = "[unat start_i..<unat end_i]"
  have rng: "\<forall>i. unat start_i \<le> i \<and> i < unat end_i \<longrightarrow>
             unat (of_nat i + startingPrimeIndex g :: u32) < length (primes g) \<and>
             unat (of_nat i + startingPrimeIndex g :: u32) < length offs \<and>
             primes g ! unat (of_nat i + startingPrimeIndex g :: u32) \<noteq> 0"
    using assms by (simp add: rows_ok_def pno_of_def)
  from sieve_ring_refines [OF rng, of sv]
  obtain sv_p sv_n offs' where c: "process_sieve g sv start_i end_i offs = Some (Inr (sv_p, offs'))"
    "reference_sieve g sv start_i end_i offs = Some (Inr (sv_n, offs'))"
    "\<forall>j. j \<noteq> 0 \<longrightarrow> (sieve_bit sv_p j \<longleftrightarrow> sieve_bit sv_n j)"
    "sieve_bit sv_p 0 \<longleftrightarrow> sieve_bit sv 0"
    by blast
  from reference_primes_pass [OF assms, of sv] c(2)
  have r: "rows_advanced g ?is offs offs'"
    "\<forall>j. sieve_bit sv_n j \<longleftrightarrow> sieve_bit sv j \<or> marked_by g ?is offs j"
    by (simp_all add: reference_sieve_def)
  show ?thesis using c(1,3,4) r by simp
qed

lemma rows_ok_advanced:
  assumes "rows_ok g is offs" and "rows_advanced g is offs offs'"
  shows "rows_ok g is offs'"
  unfolding rows_ok_def
proof (intro conjI ballI)
  show "distinct (map (pno_of g) is)" using assms(1) by (simp add: rows_ok_def)
next
  fix i assume i: "i \<in> set is"
  show "pno_of g i < length (primes g)" using assms(1) i by (simp add: rows_ok_def)
  show "pno_of g i < length offs'" using assms i by (simp add: rows_ok_def rows_advanced_def)
  show "length (offs' ! pno_of g i) = 6" using assms(2) i by (simp add: rows_advanced_def)
  show "primes g ! pno_of g i \<noteq> 0" using assms(1) i by (simp add: rows_ok_def)
  show "unat (primes g ! pno_of g i) < 2 ^ 29" using assms(1) i by (simp add: rows_ok_def)
next
  fix i v' assume i: "i \<in> set is" and v': "v' \<in> set (offs' ! pno_of g i)"
  then have "\<exists>v \<in> set (offs ! pno_of g i). advanced (primes g ! pno_of g i) v v'"
    using assms(2) by (simp add: rows_advanced_def)
  then show "v' < primes g ! pno_of g i" by (auto simp: advanced_def)
qed

lemma pno_of_plain:
  assumes "i + unat (startingPrimeIndex g) < 2 ^ 32"
  shows "pno_of g i = i + unat (startingPrimeIndex g)"
proof -
  have "i < 2 ^ 32" using assms by simp
  then have "unat (of_nat i :: u32) = i" by (simp add: unat_of_nat)
  then have "unat (of_nat i :: u32) + unat (startingPrimeIndex g) < 2 ^ LENGTH(32)"
    using assms by simp
  then have "unat (of_nat i + startingPrimeIndex g :: u32) = unat (of_nat i :: u32) + unat (startingPrimeIndex g)"
    by (simp only: unat_add_lem [THEN iffD1])
  then show ?thesis using \<open>unat (of_nat i :: u32) = i\<close> by (simp add: pno_of_def)
qed

lemma rows_ok_range:
  assumes "b + unat (startingPrimeIndex g) \<le> length (primes g)" and "length (primes g) < 2 ^ 32"
    and "\<forall>q. a + unat (startingPrimeIndex g) \<le> q \<and> q < b + unat (startingPrimeIndex g) \<longrightarrow>
           q < length offs \<and> length (offs ! q) = 6 \<and> primes g ! q \<noteq> 0 \<and>
           unat (primes g ! q) < 2 ^ 29 \<and> (\<forall>v \<in> set (offs ! q). v < primes g ! q)"
  shows "rows_ok g [a..<b] offs"
proof -
  have pl: "pno_of g i = i + unat (startingPrimeIndex g)" if "i < b" for i
    using that assms(1,2) by (intro pno_of_plain) simp
  have "inj_on (pno_of g) (set [a..<b])"
    by (rule inj_onI) (simp add: pl)
  then have d: "distinct (map (pno_of g) [a..<b])"
    by (simp add: distinct_map)
  show ?thesis
    unfolding rows_ok_def
  proof (intro conjI ballI d)
    fix i assume "i \<in> set [a..<b]"
    then have i: "a \<le> i" "i < b" by simp_all
    have q: "a + unat (startingPrimeIndex g) \<le> pno_of g i \<and> pno_of g i < b + unat (startingPrimeIndex g)"
      using i pl by simp
    show "pno_of g i < length (primes g)" using q assms(1) by simp
    show "pno_of g i < length offs" "length (offs ! pno_of g i) = 6" "primes g ! pno_of g i \<noteq> 0"
      "unat (primes g ! pno_of g i) < 2 ^ 29"
      using assms(3) q by simp_all
    show "v < primes g ! pno_of g i" if "v \<in> set (offs ! pno_of g i)" for v
      using assms(3) q that by simp
  qed
qed

text \<open>
  Claim C10.  \<open>offsets[i][f] < primes[i]\<close> is an invariant of the resident primes:
  update_remainders stores values below the prime; a sparse pass (process_sieve) and the
  dense pass over rows that satisfy the invariant return without fault, leave every entry
  below its prime, and each new entry is an old entry of the row plus a multiple of the prime
  minus \<open>sieveSize\<close> in exact arithmetic, so nothing wrapped.  Primes above \<open>sieveSize\<close>,
  for which the inner loop may not run at all, are included.
\<close>

theorem offsets_below_prime_invariant:
  "(update_remainders g start_i end_i st = Inr st1 \<and> tables_valid g \<and>
      primorialNumber g \<le> start_i \<and> unat end_i \<le> length (primes g) \<and>
      buckets_wf g st \<and> buckets_inv g st \<and> offsets_wf g st \<and>
      0 \<le> z_verify_target g + z_verify_remainderPrimorial g \<and>
      unat start_i \<le> i \<and> i < unat end_i \<and> ucast (primes g ! i) < max_increments \<and> f < 6
    \<longrightarrow> offsets st1 ! i ! f < primes g ! i)
   \<and> (rows_ok g [unat s_start..<unat s_end] offs \<longrightarrow>
        (\<exists>sv' offs'. process_sieve g sv s_start s_end offs = Some (Inr (sv', offs')) \<and>
           rows_ok g [unat s_start..<unat s_end] offs' \<and>
           (\<forall>k. unat s_start \<le> k \<and> k < unat s_end \<longrightarrow>
              (\<forall>v' \<in> set (offs' ! pno_of g k). v' < primes g ! pno_of g k \<and>
                 (\<exists>v \<in> set (offs ! pno_of g k). \<exists>n.
                    unat v' + unat riecoin_sieveSize = unat v + n * unat (primes g ! pno_of g k))))))
   \<and> (rows_ok g [0..<unat (n_dense g)] offs \<longrightarrow>
        (\<exists>sv' offs'. dense_sieve_primes g [0..<unat (n_dense g)] sv offs = Some (Inr (sv', offs')) \<and>
           rows_ok g [0..<unat (n_dense g)] offs' \<and>
           (\<forall>k < unat (n_dense g).
              (\<forall>v' \<in> set (offs' ! pno_of g k). v' < primes g ! pno_of g k \<and>
                 (\<exists>v \<in> set (offs ! pno_of g k). \<exists>n.
                    unat v' + unat riecoin_sieveSize = unat v + n * unat (primes g ! pno_of g k))))))"
proof (intro conjI impI)
  assume a: "update_remainders g start_i end_i st = Inr st1 \<and> tables_valid g \<and>
      primorialNumber g \<le> start_i \<and> unat end_i \<le> length (primes g) \<and>
      buckets_wf g st \<and> buckets_inv g st \<and> offsets_wf g st \<and>
      0 \<le> z_verify_target g + z_verify_remainderPrimorial g \<and>
      unat start_i \<le> i \<and> i < unat end_i \<and> ucast (primes g ! i) < max_increments \<and> f < 6"
  have "case update_remainders g start_i end_i st of
           Inl e \<Rightarrow> e = ProcessExit
         | Inr st1 \<Rightarrow>
             buckets_wf g st1 \<and> buckets_inv g st1 \<and> offsets_wf g st1 \<and>
             length (offsets st1) = length (offsets st) \<and>
             (\<forall>j. \<not> (unat start_i \<le> j \<and> j < unat end_i) \<longrightarrow> offsets st1 ! j = offsets st ! j) \<and>
             (\<forall>i. unat start_i \<le> i \<and> i < unat end_i \<and> ucast (primes g ! i) < max_increments \<longrightarrow>
                (\<forall>f<6. offsets st1 ! i ! f < primes g ! i \<and>
                   offset_solves (z_verify_target g + z_verify_remainderPrimorial g) (primorial g)
                     (primes g ! i) f (offsets st1 ! i ! f)))"
    using a by (intro update_remainders_result) simp_all
  then show "offsets st1 ! i ! f < primes g ! i" using a by simp
next
  assume ok: "rows_ok g [unat s_start..<unat s_end] offs"
  from process_sieve_pass [OF ok, of sv]
  obtain sv' offs' where r: "process_sieve g sv s_start s_end offs = Some (Inr (sv', offs'))"
    "rows_advanced g [unat s_start..<unat s_end] offs offs'"
    by blast
  have "\<forall>k. unat s_start \<le> k \<and> k < unat s_end \<longrightarrow>
              (\<forall>v' \<in> set (offs' ! pno_of g k). v' < primes g ! pno_of g k \<and>
                 (\<exists>v \<in> set (offs ! pno_of g k). \<exists>n.
                    unat v' + unat riecoin_sieveSize = unat v + n * unat (primes g ! pno_of g k)))"
    using r(2) by (simp add: rows_advanced_def advanced_def unat_sieveSize')
  then show "\<exists>sv' offs'. process_sieve g sv s_start s_end offs = Some (Inr (sv', offs')) \<and>
           rows_ok g [unat s_start..<unat s_end] offs' \<and>
           (\<forall>k. unat s_start \<le> k \<and> k < unat s_end \<longrightarrow>
              (\<forall>v' \<in> set (offs' ! pno_of g k). v' < primes g ! pno_of g k \<and>
                 (\<exists>v \<in> set (offs ! pno_of g k). \<exists>n.
                    unat v' + unat riecoin_sieveSize = unat v + n * unat (primes g ! pno_of g k))))"
    using r(1) rows_ok_advanced [OF ok r(2)] by blast
next
  assume ok: "rows_ok g [0..<unat (n_dense g)] offs"
  from dense_primes_pass [OF ok, of sv]
  obtain sv' offs' where r: "dense_sieve_primes g [0..<unat (n_dense g)] sv offs = Some (Inr (sv', offs'))"
    "rows_advanced g [0..<unat (n_dense g)] offs offs'"
    by blast
  have "\<forall>k < unat (n_dense g).
              (\<forall>v' \<in> set (offs' ! pno_of g k). v' < primes g ! pno_of g k \<and>
                 (\<exists>v \<in> set (offs ! pno_of g k). \<exists>n.
                    unat v' + unat riecoin_sieveSize = unat v + n * unat (primes g ! pno_of g k)))"
    using r(2) by (simp add: rows_advanced_def advanced_def unat_sieveSize')
  then show "\<exists>sv' offs'. dense_sieve_primes g [0..<unat (n_dense g)] sv offs = Some (Inr (sv', offs')) \<and>
           rows_ok g [0..<unat (n_dense g)] offs' \<and>
           (\<forall>k < unat (n_dense g).
              (\<forall>v' \<in> set (offs' ! pno_of g k). v' < primes g ! pno_of g k \<and>
                 (\<exists>v \<in> set (offs ! pno_of g k). \<exists>n.
                    unat v' + unat riecoin_sieveSize = unat v + n * unat (primes g ! pno_of g k))))"
    using r(1) rows_ok_advanced [OF ok r(2)] by blast
qed

lemma rows_ok_sparse: "rows_ok cfg_sparse [unat (0 :: u32)..<unat (1 :: u32)] offs_sparse"
proof -
  have "rows_ok cfg_sparse [0..<1] offs_sparse"
  proof (rule rows_ok_range)
    show "1 + unat (startingPrimeIndex cfg_sparse) \<le> length (primes cfg_sparse)"
      by (simp add: cfg_sparse_def)
    show "length (primes cfg_sparse) < 2 ^ 32" by (simp add: cfg_sparse_def)
    show "\<forall>q. 0 + unat (startingPrimeIndex cfg_sparse) \<le> q \<and> q < 1 + unat (startingPrimeIndex cfg_sparse) \<longrightarrow>
           q < length offs_sparse \<and> length (offs_sparse ! q) = 6 \<and> primes cfg_sparse ! q \<noteq> 0 \<and>
           unat (primes cfg_sparse ! q) < 2 ^ 29 \<and> (\<forall>v \<in> set (offs_sparse ! q). v < primes cfg_sparse ! q)"
    proof (intro allI impI)
      fix q assume "0 + unat (startingPrimeIndex cfg_sparse) \<le> q \<and> q < 1 + unat (startingPrimeIndex cfg_sparse)"
      then have "q = 2" by (simp add: cfg_sparse_def)
      then show "q < length offs_sparse \<and> length (offs_sparse ! q) = 6 \<and> primes cfg_sparse ! q \<noteq> 0 \<and>
           unat (primes cfg_sparse ! q) < 2 ^ 29 \<and> (\<forall>v \<in> set (offs_sparse ! q). v < primes cfg_sparse ! q)"
        by (simp add: cfg_sparse_def offs_sparse_def)
    qed
  qed
  then show ?thesis by simp
qed

lemma rows_ok_cfg6: "rows_ok cfg6 [0..<unat (n_dense cfg6)] offs6"
proof -
  have "rows_ok cfg6 [0..<4] offs6"
  proof (rule rows_ok_range)
    show "4 + unat (startingPrimeIndex cfg6) \<le> length (primes cfg6)"
      by (simp add: cfg6_def)
    show "length (primes cfg6) < 2 ^ 32" by (simp add: cfg6_def)
    show "\<forall>q. 0 + unat (startingPrimeIndex cfg6) \<le> q \<and> q < 4 + unat (startingPrimeIndex cfg6) \<longrightarrow>
           q < length offs6 \<and> length (offs6 ! q) = 6 \<and> primes cfg6 ! q \<noteq> 0 \<and>
           unat (primes cfg6 ! q) < 2 ^ 29 \<and> (\<forall>v \<in> set (offs6 ! q). v < primes cfg6 ! q)"
    proof (intro allI impI)
      fix q assume "0 + unat (startingPrimeIndex cfg6) \<le> q \<and> q < 4 + unat (startingPrimeIndex cfg6)"
      then have "q = 2 \<or> q = 3 \<or> q = 4 \<or> q = 5" by (auto simp: cfg6_def)
      then show "q < length offs6 \<and> length (offs6 ! q) = 6 \<and> primes cfg6 ! q \<noteq> 0 \<and>
           unat (primes cfg6 ! q) < 2 ^ 29 \<and> (\<forall>v \<in> set (offs6 ! q). v < primes cfg6 ! q)"
        by (auto simp: cfg6_def offs6_def)
    qed
  qed
  then show ?thesis by (simp add: cfg6_def)
qed

text \<open>
  Claim C9.  For every bitmap, offsets table and range of primes that are in the tables and
  nonzero, process_sieve (positions buffered through the 16-slot ring, 0 meaning empty, then
  flushed) and the reference sieve (every offset below \<open>sieveSize\<close> marked directly) both
  return, with the same offsets, and with bitmaps that agree on every position except
  position 0, which process_sieve leaves as it was.
\<close>

theorem process_sieve_refines_reference:
  assumes "\<forall>i. unat start_i \<le> i \<and> i < unat end_i \<longrightarrow>
             unat (of_nat i + startingPrimeIndex g :: u32) < length (primes g) \<and>
             unat (of_nat i + startingPrimeIndex g :: u32) < length offs \<and>
             primes g ! unat (of_nat i + startingPrimeIndex g :: u32) \<noteq> 0"
  shows "\<exists>sv_p sv_n offs'.
           process_sieve g sieve start_i end_i offs = Some (Inr (sv_p, offs')) \<and>
           reference_sieve g sieve start_i end_i offs = Some (Inr (sv_n, offs')) \<and>
           (\<forall>j. j \<noteq> 0 \<longrightarrow> (sieve_bit sv_p j \<longleftrightarrow> sieve_bit sv_n j)) \<and>
           (sieve_bit sv_p 0 \<longleftrightarrow> sieve_bit sieve 0)"
  using assms by (rule sieve_ring_refines)

theorem process_sieve_refines_reference_witness:
  "\<exists>sv_p sv_n offs'.
     process_sieve cfg_sparse (\<lambda>a. 0) 0 1 offs_sparse = Some (Inr (sv_p, offs')) \<and>
     reference_sieve cfg_sparse (\<lambda>a. 0) 0 1 offs_sparse = Some (Inr (sv_n, offs')) \<and>
     (sieve_bit sv_p 10940 \<longleftrightarrow> sieve_bit sv_n 10940) \<and>
     (sieve_bit sv_p 0 \<longleftrightarrow> sieve_bit (\<lambda>a. 0) 0)"
proof -
  have h: "\<forall>i. unat (0 :: u32) \<le> i \<and> i < unat (1 :: u32) \<longrightarrow>
             unat (of_nat i + startingPrimeIndex cfg_sparse :: u32) < length (primes cfg_sparse) \<and>
             unat (of_nat i + startingPrimeIndex cfg_sparse :: u32) < length offs_sparse \<and>
             primes cfg_sparse ! unat (of_nat i + startingPrimeIndex cfg_sparse :: u32) \<noteq> 0"
    by (simp add: cfg_sparse_def offs_sparse_def)
  from process_sieve_refines_reference [OF h, of "\<lambda>a. 0"]
  obtain sv_p sv_n offs' where r:
    "process_sieve cfg_sparse (\<lambda>a. 0) 0 1 offs_sparse = Some (Inr (sv_p, offs'))"
    "reference_sieve cfg_sparse (\<lambda>a. 0) 0 1 offs_sparse = Some (Inr (sv_n, offs'))"
    "\<forall>j. j \<noteq> 0 \<longrightarrow> (sieve_bit sv_p j \<longleftrightarrow> sieve_bit sv_n j)"
    "sieve_bit sv_p 0 \<longleftrightarrow> sieve_bit (\<lambda>a. 0) 0"
    by blast
  have "sieve_bit sv_p 10940 \<longleftrightarrow> sieve_bit sv_n 10940" using r(3) by simp
  then show ?thesis using r(1,2,4) by blast
qed

theorem offsets_below_prime_invariant_witness:
  "[4, 1, 3, 0, 2, 6 :: u32] ! 2 < primes cfg6 ! 3
   \<and> (\<exists>sv' offs'. process_sieve cfg_sparse (\<lambda>a. 0) 0 1 offs_sparse = Some (Inr (sv', offs')) \<and>
         length (offs' ! 2) = 6)
   \<and> (\<exists>sv' offs'. dense_sieve_primes cfg6 [0..<unat (n_dense cfg6)] (\<lambda>a. 0) offs6
         = Some (Inr (sv', offs')) \<and> length (offs' ! 2) = 6)"
proof -
  have h1: "update_remainders cfg6 2 6 st6 = Inr (st6\<lparr>offsets := [[0, 0, 0, 0, 0, 0], [0, 0, 0, 0, 0, 0],
       [0, 1, 4, 0, 3, 4], [4, 1, 3, 0, 2, 6], [3, 6, 2, 5, 1, 4], [8, 3, 7, 2, 6, 1]]\<rparr>)"
    by (rule ev6)
  have ha: "update_remainders cfg6 2 6 st6 = Inr (st6\<lparr>offsets := [[0, 0, 0, 0, 0, 0], [0, 0, 0, 0, 0, 0],
       [0, 1, 4, 0, 3, 4], [4, 1, 3, 0, 2, 6], [3, 6, 2, 5, 1, 4], [8, 3, 7, 2, 6, 1]]\<rparr>) \<and>
      tables_valid cfg6 \<and> primorialNumber cfg6 \<le> 2 \<and> unat (6 :: u32) \<le> length (primes cfg6) \<and>
      buckets_wf cfg6 st6 \<and> buckets_inv cfg6 st6 \<and> offsets_wf cfg6 st6 \<and>
      0 \<le> z_verify_target cfg6 + z_verify_remainderPrimorial cfg6 \<and>
      unat (2 :: u32) \<le> 3 \<and> 3 < unat (6 :: u32) \<and> ucast (primes cfg6 ! 3) < max_increments \<and> (2 :: nat) < 6"
    using h1 cfg6_valid st6_wf by (simp add: cfg6_def max_increments_def)
  note c = offsets_below_prime_invariant [where g = cfg6 and start_i = 2 and end_i = 6 and st = st6 and i = 3 and f = 2
      and offs = offs6 and sv = "\<lambda>a. 0"]
  have a: "[4, 1, 3, 0, 2, 6 :: u32] ! 2 < primes cfg6 ! 3"
    using c [THEN conjunct1, THEN mp, OF ha] by simp
  note c2 = offsets_below_prime_invariant [where g = cfg_sparse and s_start = 0 and s_end = 1 and offs = offs_sparse
      and sv = "\<lambda>a. 0"]
  have b: "\<exists>sv' offs'. process_sieve cfg_sparse (\<lambda>a. 0) 0 1 offs_sparse = Some (Inr (sv', offs')) \<and>
         length (offs' ! 2) = 6"
  proof -
    from c2 [THEN conjunct2, THEN conjunct1, THEN mp, OF rows_ok_sparse]
    obtain sv' offs' where r: "process_sieve cfg_sparse (\<lambda>a. 0) 0 1 offs_sparse = Some (Inr (sv', offs'))"
      "rows_ok cfg_sparse [unat (0 :: u32)..<unat (1 :: u32)] offs'"
      by blast
    have "pno_of cfg_sparse 0 = 2" by (simp add: pno_of_def cfg_sparse_def)
    then have "length (offs' ! 2) = 6" using r(2) by (simp add: rows_ok_def)
    then show ?thesis using r(1) by blast
  qed
  have d: "\<exists>sv' offs'. dense_sieve_primes cfg6 [0..<unat (n_dense cfg6)] (\<lambda>a. 0) offs6
         = Some (Inr (sv', offs')) \<and> length (offs' ! 2) = 6"
  proof -
    from c [THEN conjunct2, THEN conjunct2, THEN mp, OF rows_ok_cfg6]
    obtain sv' offs' where r: "dense_sieve_primes cfg6 [0..<unat (n_dense cfg6)] (\<lambda>a. 0) offs6
         = Some (Inr (sv', offs'))"
      "rows_ok cfg6 [0..<unat (n_dense cfg6)] offs'"
      by blast
    have "pno_of cfg6 0 = 2" by (simp add: pno_of_def cfg6_def)
    moreover have "0 \<in> set [0..<unat (n_dense cfg6)]" by (simp add: cfg6_def)
    ultimately have "length (offs' ! 2) = 6" using r(2) unfolding rows_ok_def by metis
    then show ?thesis using r(1) by blast
  qed
  show ?thesis using a b d by blast
qed

section \<open>verify_thread: the submitted shares\<close>

lemma limbs_value_mp_limbs: "limbs_value (mp_limbs n) = n"
proof (induction n rule: mp_limbs.induct)
  case (1 n)
  show ?case
  proof (cases "n = 0")
    case True
    then show ?thesis by (simp add: mp_limbs.simps)
  next
    case False
    have m: "unat (of_nat (n mod 2 ^ 64) :: u64) = n mod 2 ^ 64"
      by (simp add: unat_of_nat)
    have "limbs_value (mp_limbs n) = n mod 2 ^ 64 + 2 ^ 64 * limbs_value (mp_limbs (n div 2 ^ 64))"
      using False m by (subst mp_limbs.simps) simp
    then show ?thesis using 1 [OF False] by simp
  qed
qed

lemma split_low:
  fixes a b :: nat
  assumes "a < 2 ^ m"
  shows "(a + 2 ^ m * b) mod 2 ^ (m + k) = a + 2 ^ m * (b mod 2 ^ k)"
proof -
  have "(a + 2 ^ m * b) mod (2 ^ m * 2 ^ k)
      = 2 ^ m * ((a + 2 ^ m * b) div 2 ^ m mod 2 ^ k) + (a + 2 ^ m * b) mod 2 ^ m"
    by (rule mod_mult2_eq)
  moreover have "(a + 2 ^ m * b) div 2 ^ m = b" using assms by simp
  moreover have "(a + 2 ^ m * b) mod 2 ^ m = a" using assms by simp
  ultimately show ?thesis by (simp add: power_add)
qed

lemma limbs_value_take: "limbs_value (take k ls) = limbs_value ls mod 2 ^ (64 * k)"
proof (induction k arbitrary: ls)
  case 0
  then show ?case by simp
next
  case (Suc k)
  show ?case
  proof (cases ls)
    case Nil
    then show ?thesis by simp
  next
    case (Cons l ls')
    have l: "unat l < 2 ^ 64" using unsigned_less [of l, where ?'a = nat] by simp
    have "64 * Suc k = 64 + 64 * k" by simp
    then show ?thesis
      using Suc [of ls'] split_low [OF l, of "limbs_value ls'" "64 * k"] Cons by simp
  qed
qed

lemma read_le_append: "read_le (xs @ ys) = read_le xs + 256 ^ length xs * read_le ys"
  by (induction xs) (simp_all add: algebra_simps)

lemma uint_byte: "uint (ucast (drop_bit m w) :: u8) = (uint (w :: u64) div 2 ^ m) mod 2 ^ 8"
proof -
  have "uint (drop_bit m w) = drop_bit m (uint w)"
    by (simp add: unsigned_drop_bit_eq take_bit_int_eq_self uint_lt2p [of w, simplified])
  then have "uint (ucast (drop_bit m w) :: u8) = take_bit 8 (drop_bit m (uint w))"
    by (simp add: unsigned_ucast_eq)
  then show ?thesis by (simp add: take_bit_eq_mod drop_bit_eq_div)
qed

lemma read_le_bytes:
  "read_le (map (\<lambda>k. ucast (drop_bit (8 * k) w)) [0..<n]) = uint (w :: u64) mod 2 ^ (8 * n)"
proof (induction n)
  case 0
  then show ?case by simp
next
  case (Suc n)
  let ?x = "uint w"
  have nn: "0 \<le> ?x" by simp
  have a: "?x mod (2 ^ (8 * n) * 2 ^ 8)
      = 2 ^ (8 * n) * (?x div 2 ^ (8 * n) mod 2 ^ 8) + ?x mod 2 ^ (8 * n)"
    by (rule zmod_zmult2_eq) simp
  have p: "(256 :: int) ^ n = 2 ^ (8 * n)"
  proof -
    have "(256 :: int) = 2 ^ 8" by simp
    then show ?thesis by (simp only: power_mult [symmetric])
  qed
  have "8 * Suc n = 8 * n + 8" by simp
  have b: "read_le (map (\<lambda>k. ucast (drop_bit (8 * k) w)) [0..<Suc n])
      = ?x mod 2 ^ (8 * n) + 2 ^ (8 * n) * (?x div 2 ^ (8 * n) mod 2 ^ 8)"
    using Suc by (simp add: read_le_append uint_byte p)
  have "?x mod 2 ^ (8 * Suc n) = ?x mod (2 ^ (8 * n) * 2 ^ 8)"
    by (simp add: power_add mult.commute)
  then show ?case using a b by simp
qed

lemma le_bytes64_read: "read_le (le_bytes64 w @ bs) = uint w + 2 ^ 64 * read_le bs"
proof -
  have "uint w mod 2 ^ (8 * 8) = uint w"
    using uint_lt2p [of w] by simp
  then show ?thesis
    using read_le_bytes [of w 8] by (simp add: le_bytes64_def read_le_append)
qed

lemma read_le_zeros: "read_le (replicate m 0) = 0"
  by (induction m) simp_all

lemma read_le_limbs:
  "read_le (concat (map le_bytes64 ls) @ replicate m 0) = int (limbs_value ls)"
  by (induction ls) (simp_all add: read_le_zeros le_bytes64_read)

lemma length_limb_bytes: "length (concat (map le_bytes64 ls)) = 8 * length ls"
  by (induction ls) (simp_all add: le_bytes64_def)

lemma offset_bytes_read:
  assumes "0 \<le> z"
  shows "\<exists>bs. offset_bytes z = Inr bs \<and> length bs = 32 \<and> read_le bs = z mod 2 ^ 256"
proof -
  define limbs where "limbs = mp_limbs (nat z)"
  define n where "n = min (32 div 8) (length limbs)"
  define bs where "bs = concat (map le_bytes64 (take n limbs)) @ replicate (32 - 8 * n) 0"
  have e: "offset_bytes z = Inr bs"
    using assms by (simp add: offset_bytes_def Let_def limbs_def n_def bs_def)
  have n4: "n \<le> 4" by (simp add: n_def)
  have tk: "take n limbs = take 4 limbs" by (simp add: n_def min_def)
  have len: "length bs = 32"
    using n4 by (simp add: bs_def length_limb_bytes n_def min_def)
  have "read_le bs = int (limbs_value (take 4 limbs))"
    unfolding bs_def tk by (rule read_le_limbs)
  also have "\<dots> = int (nat z mod 2 ^ (64 * 4))"
    by (simp only: limbs_value_take limbs_def limbs_value_mp_limbs)
  also have "\<dots> = z mod 2 ^ 256"
    using assms by (simp add: zmod_int)
  finally show ?thesis using e len by blast
qed

lemma cumulativeBias_step:
  assumes "1 \<le> i" "i < 6"
  shows "cumulativeBias i = cumulativeBias (i - 1) + uint (primeTupleOffset ! i)"
proof -
  have "i < length primeTupleOffset" using assms(2) by (simp add: primeTupleOffset_def)
  moreover have "Suc (i - 1) = i" using assms(1) by simp
  ultimately show ?thesis
    by (simp add: cumulativeBias_def take_Suc_conv_app_nth)
qed

lemma cumulativeBias_nonneg: "0 \<le> cumulativeBias i"
  unfolding cumulativeBias_def by (rule sum_list_nonneg) auto

lemma fermat_test_pos:
  assumes "0 < v"
  shows "fermat_test v = Inr (2 ^ nat (v - 1) mod v = 1)"
  using assms by (simp add: fermat_test_def mpz_powm_def)

lemma fermat_chain_result:
  assumes "1 \<le> i" and "i \<le> 6" and "0 < n"
    and "fermat_chain (n + cumulativeBias (i - 1)) [i..<6] (of_nat i) = Inr c"
  shows "i \<le> unat c \<and> unat c \<le> 6 \<and>
         (\<forall>j. i \<le> j \<and> j < unat c \<longrightarrow>
              2 ^ nat (n + cumulativeBias j - 1) mod (n + cumulativeBias j) = 1) \<and>
         (unat c < 6 \<longrightarrow>
              2 ^ nat (n + cumulativeBias (unat c) - 1) mod (n + cumulativeBias (unat c)) \<noteq> 1)"
  using assms
proof (induction "6 - i" arbitrary: i)
  case 0
  then have "i = 6" by simp
  then show ?case using "0.prems"(4) by auto
next
  case (Suc m)
  then have i6: "i < 6" by simp
  have ui: "unat (of_nat i :: u8) = i" using i6 by (simp add: unat_of_nat)
  have upt: "[i..<6] = i # [Suc i..<6]" using i6 by (simp add: upt_conv_Cons)
  have z1: "n + cumulativeBias (i - 1) + uint (primeTupleOffset ! i) = n + cumulativeBias i"
    using cumulativeBias_step [OF Suc.prems(1) i6] by simp
  have pos: "0 < n + cumulativeBias i"
    using Suc.prems(3) cumulativeBias_nonneg [of i] by simp
  note ft = fermat_test_pos [OF pos]
  show ?case
  proof (cases "2 ^ nat (n + cumulativeBias i - 1) mod (n + cumulativeBias i) = 1")
    case False
    have "fermat_chain (n + cumulativeBias (i - 1)) [i..<6] (of_nat i) = Inr (of_nat i)"
      unfolding upt fermat_chain.simps Let_def z1 ft using False by simp
    then have "c = of_nat i" using Suc.prems(4) by simp
    then show ?thesis using False ui i6 by auto
  next
    case True
    have e: "fermat_chain (n + cumulativeBias (i - 1)) [i..<6] (of_nat i)
        = fermat_chain (n + cumulativeBias (Suc i - 1)) [Suc i..<6] (of_nat (Suc i))"
      unfolding upt fermat_chain.simps Let_def z1 ft using True by (simp add: add.commute)
    have ih: "Suc i \<le> unat c \<and> unat c \<le> 6 \<and>
         (\<forall>j. Suc i \<le> j \<and> j < unat c \<longrightarrow>
              2 ^ nat (n + cumulativeBias j - 1) mod (n + cumulativeBias j) = 1) \<and>
         (unat c < 6 \<longrightarrow>
              2 ^ nat (n + cumulativeBias (unat c) - 1) mod (n + cumulativeBias (unat c)) \<noteq> 1)"
    proof (rule Suc.hyps(1))
      show "m = 6 - Suc i" using Suc.hyps(2) by simp
      show "1 \<le> Suc i" by simp
      show "Suc i \<le> 6" using i6 by simp
      show "0 < n" by (rule Suc.prems(3))
      show "fermat_chain (n + cumulativeBias (Suc i - 1)) [Suc i..<6] (of_nat (Suc i)) = Inr c"
        using Suc.prems(4) e by simp
    qed
    have "2 ^ nat (n + cumulativeBias j - 1) mod (n + cumulativeBias j) = 1"
      if "i \<le> j" "j < unat c" for j
    proof (cases "j = i")
      case True
      then show ?thesis using \<open>2 ^ nat (n + cumulativeBias i - 1) mod (n + cumulativeBias i) = 1\<close>
        by simp
    next
      case False
      then have "Suc i \<le> j" using that(1) by simp
      then show ?thesis using ih that(2) by blast
    qed
    then show ?thesis using ih by auto
  qed
qed

lemma cumulativeBias_0: "cumulativeBias 0 = 0"
  by (simp add: cumulativeBias_def primeTupleOffset_def)

lemma verify_candidate_submission:
  assumes "verify_candidate g tuples loop index = Inr (Some (nOffset, k))"
    and "unat loop < 256" and "0 \<le> z_verify_target g"
  defines "n \<equiv> z_verify_target g + z_verify_remainderPrimorial g
               + (uint loop * uint riecoin_sieveSize + uint index) * primorial g"
  shows "0 < n \<and> tuples \<le> unat k \<and> 1 \<le> unat k \<and> unat k \<le> 6 \<and> length nOffset = 32 \<and>
         read_le nOffset = (n - z_verify_target g) mod 2 ^ 256 \<and>
         (\<forall>i < unat k. 2 ^ nat (n + cumulativeBias i - 1) mod (n + cumulativeBias i) = 1) \<and>
         (unat k < 6 \<longrightarrow>
            2 ^ nat (n + cumulativeBias (unat k) - 1) mod (n + cumulativeBias (unat k)) \<noteq> 1)"
proof -
  have "unat loop * unat riecoin_sieveSize < 2 ^ 32"
    using assms(2) by (simp add: riecoin_sieveSize_def riecoin_sieveBits_def)
  then have "unat (loop * riecoin_sieveSize) = unat loop * unat riecoin_sieveSize"
    by (simp add: unat_mult_lem [THEN iffD1])
  then have m: "uint (loop * riecoin_sieveSize) = uint loop * uint riecoin_sieveSize"
    by (metis of_nat_mult of_nat_unat)
  define z where "z = primorial g * uint (loop * riecoin_sieveSize) + primorial g * uint index
      + z_verify_remainderPrimorial g + z_verify_target g"
  have zn: "z = n" unfolding z_def n_def m by (simp only: algebra_simps)
  have v: "verify_candidate g tuples loop index =
      (case fermat_test z of
           Inl e \<Rightarrow> Inl e
         | Inr pass \<Rightarrow>
             if \<not> pass then Inr None
             else
               (case fermat_chain z [1..<6] 1 of
                  Inl e \<Rightarrow> Inl e
                | Inr nPrimes \<Rightarrow>
                    if unat nPrimes < tuples then Inr None
                    else case offset_bytes (z - z_verify_target g) of
                           Inl e \<Rightarrow> Inl e
                         | Inr nOffset \<Rightarrow> Inr (Some (nOffset, nPrimes))))"
    unfolding verify_candidate_def Let_def z_def by simp
  from assms(1) have f0: "fermat_test z = Inr True"
    and ck: "fermat_chain z [1..<6] 1 = Inr k"
    and tc: "tuples \<le> unat k"
    and ob: "offset_bytes (z - z_verify_target g) = Inr nOffset"
    unfolding v by (auto split: sum.splits if_splits)
  have nn: "0 \<le> z - z_verify_target g"
    using ob by (auto simp: offset_bytes_def split: if_splits)
  have z0: "z \<noteq> 0" using f0 by (auto simp: fermat_test_def mpz_powm_def)
  have pos: "0 < n" using nn z0 assms(3) zn by simp
  from offset_bytes_read [OF nn] ob
  have bs: "length nOffset = 32" "read_le nOffset = (z - z_verify_target g) mod 2 ^ 256"
    by auto
  have p0: "2 ^ nat (n - 1) mod n = 1" using f0 fermat_test_pos [OF pos] zn by simp
  have ch: "1 \<le> unat k \<and> unat k \<le> 6 \<and>
         (\<forall>j. 1 \<le> j \<and> j < unat k \<longrightarrow>
              2 ^ nat (n + cumulativeBias j - 1) mod (n + cumulativeBias j) = 1) \<and>
         (unat k < 6 \<longrightarrow>
              2 ^ nat (n + cumulativeBias (unat k) - 1) mod (n + cumulativeBias (unat k)) \<noteq> 1)"
    using fermat_chain_result [of 1 n k] pos ck by (simp add: zn cumulativeBias_0)
  have all: "2 ^ nat (n + cumulativeBias i - 1) mod (n + cumulativeBias i) = 1"
    if "i < unat k" for i
  proof (cases "i = 0")
    case True
    then show ?thesis using p0 by (simp add: cumulativeBias_0)
  next
    case False
    then show ?thesis using ch that by simp
  qed
  show ?thesis using tc ch bs pos all by (simp add: zn)
qed

lemma verify_job_submissions:
  assumes "verify_job g tuples loop indexes = Inr subs" and "s \<in> set subs"
  shows "\<exists>index \<in> set indexes. verify_candidate g tuples loop index = Inr (Some s)"
  using assms
proof (induction indexes arbitrary: subs)
  case Nil
  then show ?case by simp
next
  case (Cons index rest)
  from Cons.prems(1) obtain sub subs' where r:
    "verify_candidate g tuples loop index = Inr sub" "verify_job g tuples loop rest = Inr subs'"
    "subs = (case sub of None \<Rightarrow> subs' | Some s \<Rightarrow> s # subs')"
    by (auto split: sum.splits)
  show ?case
  proof (cases "s \<in> set subs'")
    case True
    from Cons.IH [OF r(2) True] show ?thesis by auto
  next
    case False
    then have "sub = Some s" using r(3) Cons.prems(2) by (cases sub) auto
    then show ?thesis using r(1) by simp
  qed
qed

lemma mp_limbs_7: "mp_limbs 7 = [7]"
  by (simp add: mp_limbs.simps)

lemma fermat_chain_7: "fermat_chain 7 [1..<6] 1 = Inr 6"
  by code_simp

lemma le_bytes64_7: "le_bytes64 7 @ replicate 24 0 = 7 # replicate 31 0"
  by code_simp

lemma verify_candidate_cfg_tuple:
  "verify_candidate cfg_tuple 6 0 0 = Inr (Some (7 # replicate 31 0, 6))"
proof -
  have "fermat_test 7 = Inr True" by (simp add: fermat_test_def mpz_powm_def)
  then show ?thesis
    unfolding verify_candidate_def Let_def
    by (simp add: cfg_tuple_def fermat_chain_7 [simplified] offset_bytes_def mp_limbs_7
        le_bytes64_7 [simplified] del: fermat_chain.simps)
qed

text \<open>
  Claim C3.  Whenever a job of verify_thread calls submitWork with a buffer and a count \<open>k\<close>
  (for a non-negative target and an iteration number whose 32-bit product with the sieve size
  does not wrap), the call is made for one of the indexes \<open>j\<close> of the job, and with
  \<open>n = z_verify_target + z_verify_remainderPrimorial + (loop * sieveSize + j) * primorial\<close>:
  \<open>k\<close> is at least the configured threshold and between 1 and 6; the buffer has 32 bytes and
  read little-endian it is \<open>n - z_verify_target\<close> modulo \<open>2^256\<close> (so the bytes beyond the value
  are zero); \<open>n\<close> plus each of the first \<open>k\<close> cumulative biases 0, 4, 6, 10, 12, 16 passes the
  Fermat test to base 2; and when \<open>k < 6\<close> the next member fails it.
\<close>

theorem verify_thread_submission:
  assumes "verify_job g tuples loop indexes = Inr subs"
    and "(nOffset, k) \<in> set subs"
    and "unat loop < 256"
    and "0 \<le> z_verify_target g"
  shows "\<exists>j \<in> set indexes.
           tuples \<le> unat k \<and> 1 \<le> unat k \<and> unat k \<le> 6 \<and> length nOffset = 32 \<and>
           read_le nOffset =
             (z_verify_remainderPrimorial g
                + (uint loop * uint riecoin_sieveSize + uint j) * primorial g) mod 2 ^ 256 \<and>
           (\<forall>i < unat k.
              2 ^ nat (z_verify_target g + z_verify_remainderPrimorial g
                        + (uint loop * uint riecoin_sieveSize + uint j) * primorial g
                        + cumulativeBias i - 1)
                mod (z_verify_target g + z_verify_remainderPrimorial g
                      + (uint loop * uint riecoin_sieveSize + uint j) * primorial g
                      + cumulativeBias i) = 1) \<and>
           (unat k < 6 \<longrightarrow>
              2 ^ nat (z_verify_target g + z_verify_remainderPrimorial g
                        + (uint loop * uint riecoin_sieveSize + uint j) * primorial g
                        + cumulativeBias (unat k) - 1)
                mod (z_verify_target g + z_verify_remainderPrimorial g
                      + (uint loop * uint riecoin_sieveSize + uint j) * primorial g
                      + cumulativeBias (unat k)) \<noteq> 1)"
proof -
  from verify_job_submissions [OF assms(1,2)] obtain j where
    j: "j \<in> set indexes" "verify_candidate g tuples loop j = Inr (Some (nOffset, k))"
    by auto
  from verify_candidate_submission [OF j(2) assms(3,4)] j(1) show ?thesis
    by (intro bexI [of _ j]) simp_all
qed

theorem verify_thread_submission_witness:
  "verify_job cfg_tuple 6 0 [0] = Inr [(7 # replicate 31 0, 6)] \<and>
   read_le (7 # replicate 31 0) = (7::int) \<and>
   (2::int) ^ nat (0 + 7 + cumulativeBias 5 - 1) mod (0 + 7 + cumulativeBias 5) = 1"
proof -
  have job: "verify_job cfg_tuple 6 0 [0] = Inr [(7 # replicate 31 0, 6)]"
    by (simp add: verify_candidate_cfg_tuple)
  have "\<exists>j \<in> set [0::u32].
           (6::nat) \<le> unat (6::u8) \<and> 1 \<le> unat (6::u8) \<and> unat (6::u8) \<le> 6 \<and>
           length (7 # replicate 31 (0::u8)) = 32 \<and>
           read_le (7 # replicate 31 0) =
             (z_verify_remainderPrimorial cfg_tuple
                + (uint (0::u32) * uint riecoin_sieveSize + uint j) * primorial cfg_tuple) mod 2 ^ 256 \<and>
           (\<forall>i < unat (6::u8).
              2 ^ nat (z_verify_target cfg_tuple + z_verify_remainderPrimorial cfg_tuple
                        + (uint (0::u32) * uint riecoin_sieveSize + uint j) * primorial cfg_tuple
                        + cumulativeBias i - 1)
                mod (z_verify_target cfg_tuple + z_verify_remainderPrimorial cfg_tuple
                      + (uint (0::u32) * uint riecoin_sieveSize + uint j) * primorial cfg_tuple
                      + cumulativeBias i) = 1) \<and>
           (unat (6::u8) < 6 \<longrightarrow>
              2 ^ nat (z_verify_target cfg_tuple + z_verify_remainderPrimorial cfg_tuple
                        + (uint (0::u32) * uint riecoin_sieveSize + uint j) * primorial cfg_tuple
                        + cumulativeBias (unat (6::u8)) - 1)
                mod (z_verify_target cfg_tuple + z_verify_remainderPrimorial cfg_tuple
                      + (uint (0::u32) * uint riecoin_sieveSize + uint j) * primorial cfg_tuple
                      + cumulativeBias (unat (6::u8))) \<noteq> 1)"
    by (rule verify_thread_submission [OF job]) (simp_all add: cfg_tuple_def)
  then have "read_le (7 # replicate 31 0) = (7::int) \<and>
     (\<forall>i < 6. (2::int) ^ nat (0 + 7 + cumulativeBias i - 1) mod (0 + 7 + cumulativeBias i) = 1)"
    by (simp add: cfg_tuple_def)
  then show ?thesis using job by simp
qed

section \<open>The scan of the merged sieve: which indexes are tested\<close>

lemma bit_sieve64:
  "bit (sieve64 sieve b) i \<longleftrightarrow> i < 64 \<and> sieve_bit sieve (64 * b + i)"
proof -
  have "bit (horner_sum uint ((2::int) ^ 8) (map (\<lambda>k. sieve (8 * b + k)) [0..<8])) i
      \<longleftrightarrow> i div 8 < 8 \<and> bit (sieve (8 * b + i div 8)) (i mod 8)"
    using bit_horner_sum_uint_exp_iff [of "map (\<lambda>k. sieve (8 * b + k)) [0..<8]" i]
    by (auto simp: nth_map_upt)
  moreover have "(64 * b + i) div 8 = 8 * b + i div 8" by presburger
  moreover have "(64 * b + i) mod 8 = i mod 8" by presburger
  moreover have "i div 8 < 8 \<longleftrightarrow> i < 64" by presburger
  ultimately show ?thesis
    by (auto simp: sieve64_def sieve_bit_def bit_word_of_int_iff)
qed

lemma clzll_facts:
  fixes sb :: u64
  assumes "sb \<noteq> 0"
  defines "L \<equiv> length (takeWhile (\<lambda>i. \<not> bit sb i) (rev [0..<64]))"
  shows "L < 64" and "bit sb (63 - L)" and "unat (63 - clzll sb) = 63 - L"
proof -
  have "\<exists>i. bit sb i"
  proof (rule ccontr)
    assume "\<not> (\<exists>i. bit sb i)"
    then have "sb = 0" by (intro bit_eqI) simp
    then show False using assms(1) by simp
  qed
  then obtain i where i: "bit sb i" ..
  then have "i < 64" using bit_imp_le_length [of sb i] by simp
  then have "i \<in> set (rev [0..<64])" by simp
  then have ne: "takeWhile (\<lambda>i. \<not> bit sb i) (rev [0..<64]) \<noteq> rev [0..<64]"
    using i by (metis (mono_tags, lifting) takeWhile_eq_all_conv)
  have "L \<le> length (rev [0..<64])" unfolding L_def by (rule length_takeWhile_le)
  moreover have "L \<noteq> length (rev [0..<64])"
  proof
    assume "L = length (rev [0..<64])"
    then have "takeWhile (\<lambda>i. \<not> bit sb i) (rev [0..<64]) = rev [0..<64]"
      unfolding L_def by (metis takeWhile_eq_take take_all order_refl)
    then show False using ne by simp
  qed
  ultimately have lt: "L < length (rev [0..<64])" by simp
  then show L64: "L < 64" by simp
  from nth_length_takeWhile [of "\<lambda>i. \<not> bit sb i" "rev [0..<64]"] lt
  have "bit sb (rev [0..<64] ! L)" unfolding L_def by simp
  moreover have "rev [0..<64] ! L = 63 - L" using L64 by (simp add: rev_nth)
  ultimately show "bit sb (63 - L)" by simp
  have "(of_nat (63 - L) :: u32) = of_nat 63 - of_nat L"
    using L64 by (intro of_nat_diff) simp
  then have "63 - clzll sb = (of_nat (63 - L) :: u32)"
    unfolding clzll_def L_def [symmetric] by simp
  moreover have "unat (of_nat (63 - L) :: u32) = 63 - L"
  proof -
    have "unat (of_nat (63 - L) :: u32) = (63 - L) mod 2 ^ LENGTH(32)" by (rule unat_of_nat)
    also have "\<dots> = 63 - L" by simp
    finally show ?thesis .
  qed
  ultimately show "unat (63 - clzll sb) = 63 - L" by simp
qed

lemma finite_bits: "finite {i. bit (w :: u64) i}"
proof (rule finite_subset)
  show "{i. bit w i} \<subseteq> {..<64}" using bit_imp_le_length [of w] by auto
qed simp

lemma card_bits: "card {i. bit (w :: u64) i} \<le> 64"
proof -
  have "{i. bit w i} \<subseteq> {..<64}" using bit_imp_le_length [of w] by auto
  then have "card {i. bit w i} \<le> card {..<64::nat}" by (intro card_mono) simp_all
  then show ?thesis by simp
qed

lemma clear_bit_bits:
  fixes sb :: u64
  shows "{i. bit (sb AND NOT (push_bit h 1)) i} = {i. bit sb i} - {h}"
  by (auto simp: bit_simps dest: bit_imp_le_length)

lemma job_indexes_append: "job_indexes (q @ [(l, is)]) = job_indexes q \<union> set is"
  by (simp add: job_indexes_def)

lemma extract_while_result:
  assumes "\<forall>k. \<not> changed k"
    and "scan_inv n loop st" and "0 \<le> c" and "nat c + card {i. bit sb i} \<le> 64"
  shows "\<exists>st'. extract_while changed loop b sb c st = Inr st' \<and> scan_inv n loop st' \<and>
           take n (verifyWorkQueue st') = take n (verifyWorkQueue st) \<and>
           scan_indexes n st' = scan_indexes n st \<union> {b * 64 + of_nat i | i. bit sb i}"
  using assms(2-)
proof (induction "card {i. bit sb i}" arbitrary: sb c st)
  case 0
  then have "{i. bit sb i} = {}" using finite_bits [of sb] by simp
  then have "sb = 0" by (auto simp: bit_eq_iff)
  then show ?case using 0 by (subst extract_while.simps) simp
next
  case (Suc m)
  have nz: "sb \<noteq> 0"
  proof
    assume z: "sb = 0"
    have "{i. bit (0::u64) i} = {}" by auto
    then have "card {i. bit (0::u64) i} = 0" by (simp only: card.empty)
    then show False using Suc.hyps(2) unfolding z by (simp only:)
  qed
  define L where "L = length (takeWhile (\<lambda>i. \<not> bit sb i) (rev [0..<64]))"
  note cz = clzll_facts [OF nz, folded L_def]
  define i where "i = b * 64 + (63 - clzll sb)"
  define sb1 where "sb1 = sb AND NOT (push_bit (unat (63 - clzll sb)) 1)"
  define st1 where "st1 = st\<lparr>countCandidates := countCandidates st + 1,
                     w_indexes := w_indexes st @ [i]\<rparr>"
  define st2 where "st2 = (if length (w_indexes st1) = WORK_INDEXES
                   then st1\<lparr>verifyWorkQueue := verifyWorkQueue st1 @ [(loop, w_indexes st1)],
                            w_indexes := []\<rparr>
                   else st1)"
  define st3 where "st3 = st2\<lparr>observed := observed st2 + 1\<rparr>"
  have bits1: "{i. bit sb1 i} = {i. bit sb i} - {63 - L}"
    unfolding sb1_def cz(3) by (rule clear_bit_bits)
  have card1: "card {i. bit sb1 i} = m"
    using Suc.hyps(2) cz(2) finite_bits [of sb] by (simp add: bits1)
  have c63: "c + 1 \<le> 65" using Suc.prems(3) Suc.hyps(2) by simp
  have len: "length (w_indexes st) < WORK_INDEXES" using Suc.prems(1) by (simp add: scan_inv_def)
  have step: "extract_while changed loop b sb c st = extract_while changed loop b sb1 (c + 1) st3"
    using nz c63 len assms(1)
    by (subst extract_while.simps)
      (simp add: Let_def i_def sb1_def st1_def st2_def st3_def)
  have inv3: "scan_inv n loop st3"
    using Suc.prems(1)
    by (auto simp: scan_inv_def st3_def st2_def st1_def WORK_INDEXES_def)
  have tk3: "take n (verifyWorkQueue st3) = take n (verifyWorkQueue st)"
    using Suc.prems(1) by (auto simp: scan_inv_def st3_def st2_def st1_def)
  have ix3: "scan_indexes n st3 = scan_indexes n st \<union> {i}"
    using Suc.prems(1)
    by (auto simp: scan_inv_def scan_indexes_def st3_def st2_def st1_def job_indexes_def)
  have "63 - clzll sb = of_nat (unat (63 - clzll sb))" by simp
  then have ieq: "i = b * 64 + of_nat (63 - L)"
    unfolding i_def cz(3) by simp
  from Suc.hyps(1) [OF card1 [symmetric] inv3, of "c + 1"] Suc.prems(2,3) Suc.hyps(2) card1
  obtain st' where r: "extract_while changed loop b sb1 (c + 1) st3 = Inr st'" "scan_inv n loop st'"
    "take n (verifyWorkQueue st') = take n (verifyWorkQueue st3)"
    "scan_indexes n st' = scan_indexes n st3 \<union> {b * 64 + of_nat i | i. bit sb1 i}"
    by (auto simp: nat_add_distrib)
  have b1: "bit sb1 j \<longleftrightarrow> bit sb j \<and> j \<noteq> 63 - L" for j
    using bits1 by blast
  have "{b * 64 + of_nat i | i. bit sb i} = {i} \<union> {b * 64 + of_nat i | i. bit sb1 i}"
    unfolding ieq b1 using cz(2) by blast
  then show ?case using r step tk3 ix3 by auto
qed

lemma unat_sieveWords: "unat riecoin_sieveWords = 262144"
  by (simp add: riecoin_sieveWords_def riecoin_sieveSize_def riecoin_sieveBits_def unat_div)

lemma bit_not_sieve64:
  "bit (NOT (sieve64 sieve b)) i \<longleftrightarrow> i < 64 \<and> \<not> sieve_bit sieve (64 * b + i)"
  by (auto simp: bit_simps bit_sieve64)

lemma extract_words_result:
  assumes "\<forall>k. \<not> changed k" and "scan_inv n loop st"
  shows "\<exists>st'. extract_words changed loop sieve bs st = Inr st' \<and> scan_inv n loop st' \<and>
           take n (verifyWorkQueue st') = take n (verifyWorkQueue st) \<and>
           scan_indexes n st' = scan_indexes n st \<union>
             {of_nat b * 64 + of_nat i | b i. b \<in> set bs \<and> i < 64 \<and> \<not> sieve_bit sieve (64 * b + i)}"
  using assms(2)
proof (induction bs arbitrary: st)
  case Nil
  then show ?case by simp
next
  case (Cons b bs)
  have nr: "\<not> do_reset st" using Cons.prems by (simp add: scan_inv_def)
  have "nat 0 + card {i. bit (NOT (sieve64 sieve b)) i} \<le> 64"
    using card_bits [of "NOT (sieve64 sieve b)"] by simp
  from extract_while_result [OF assms(1) Cons.prems _ this, of "of_nat b"]
  obtain st1 where w: "extract_while changed loop (of_nat b) (NOT (sieve64 sieve b)) 0 st = Inr st1"
    "scan_inv n loop st1" "take n (verifyWorkQueue st1) = take n (verifyWorkQueue st)"
    "scan_indexes n st1 = scan_indexes n st \<union>
       {of_nat b * 64 + of_nat i | i. bit (NOT (sieve64 sieve b)) i}"
    by auto
  from Cons.IH [OF w(2)] obtain st' where r:
    "extract_words changed loop sieve bs st1 = Inr st'" "scan_inv n loop st'"
    "take n (verifyWorkQueue st') = take n (verifyWorkQueue st1)"
    "scan_indexes n st' = scan_indexes n st1 \<union>
             {of_nat b * 64 + of_nat i | b i. b \<in> set bs \<and> i < 64 \<and> \<not> sieve_bit sieve (64 * b + i)}"
    by auto
  have e: "extract_words changed loop sieve (b # bs) st = Inr st'"
    using nr w(1) r(1) by simp
  have "scan_indexes n st' = scan_indexes n st \<union>
     {of_nat b' * 64 + of_nat i | b' i. b' \<in> set (b # bs) \<and> i < 64 \<and> \<not> sieve_bit sieve (64 * b' + i)}"
    unfolding r(4) w(4) bit_not_sieve64 by auto
  then show ?case using e r(2,3) w(3) by simp
qed

lemma candidate_positions:
  "{(of_nat b :: u32) * 64 + of_nat i | b i.
      b \<in> set [0..<262144] \<and> i < 64 \<and> \<not> sieve_bit sieve (64 * b + i)}
   = {of_nat j | j. j < 2 ^ 24 \<and> \<not> sieve_bit sieve j}"
proof (intro set_eqI iffI)
  fix x :: u32
  assume "x \<in> {of_nat b * 64 + of_nat i | b i.
      b \<in> set [0..<262144] \<and> i < 64 \<and> \<not> sieve_bit sieve (64 * b + i)}"
  then obtain b i where bi: "x = of_nat b * 64 + of_nat i" "b < 262144" "i < 64"
    "\<not> sieve_bit sieve (64 * b + i)" by auto
  have "x = of_nat (64 * b + i)" using bi(1) by simp
  moreover have "64 * b + i < 2 ^ 24" using bi(2,3) by simp
  ultimately show "x \<in> {of_nat j | j. j < 2 ^ 24 \<and> \<not> sieve_bit sieve j}"
    using bi(4) by blast
next
  fix x :: u32
  assume "x \<in> {of_nat j | j. j < 2 ^ 24 \<and> \<not> sieve_bit sieve j}"
  then obtain j where j: "x = of_nat j" "j < 2 ^ 24" "\<not> sieve_bit sieve j" by auto
  have "j = 64 * (j div 64) + j mod 64" by simp
  then have "x = of_nat (j div 64) * 64 + of_nat (j mod 64)"
    unfolding j(1) by (metis of_nat_add of_nat_mult of_nat_numeral mult.commute)
  moreover have "j div 64 < 262144" using j(2) by simp
  moreover have "\<not> sieve_bit sieve (64 * (j div 64) + j mod 64)" using j(3) by simp
  ultimately show "x \<in> {of_nat b * 64 + of_nat i | b i.
      b \<in> set [0..<262144] \<and> i < 64 \<and> \<not> sieve_bit sieve (64 * b + i)}"
    by (intro CollectI exI [of _ "j div 64"] exI [of _ "j mod 64"]) simp
qed

lemma extract_candidates_result:
  assumes "\<forall>k. \<not> changed k"
  shows "\<exists>st jobs. extract_candidates changed loop sieve queue count = Inr st \<and>
           verifyWorkQueue st = queue @ jobs \<and> w_indexes st = [] \<and>
           fst ` set jobs \<subseteq> {loop} \<and>
           job_indexes jobs = {of_nat j | j. j < 2 ^ 24 \<and> \<not> sieve_bit sieve j}"
proof -
  define st0 where "st0 = \<lparr>w_indexes = [], verifyWorkQueue = queue, countCandidates = count,
              observed = 0, do_reset = False\<rparr>"
  define n where "n = length queue"
  have inv0: "scan_inv n loop st0"
    by (simp add: scan_inv_def st0_def n_def WORK_INDEXES_def)
  have ix0: "scan_indexes n st0 = {}"
    by (simp add: scan_indexes_def st0_def n_def job_indexes_def)
  from extract_words_result [OF assms inv0, of sieve "[0..<unat riecoin_sieveWords]"]
  obtain st1 where r: "extract_words changed loop sieve [0..<unat riecoin_sieveWords] st0 = Inr st1"
    "scan_inv n loop st1" "take n (verifyWorkQueue st1) = take n (verifyWorkQueue st0)"
    "scan_indexes n st1 = {of_nat j | j. j < 2 ^ 24 \<and> \<not> sieve_bit sieve j}"
    unfolding ix0 unat_sieveWords using candidate_positions [of sieve] by auto
  define st where "st = (if 0 < length (w_indexes st1)
               then st1\<lparr>verifyWorkQueue := verifyWorkQueue st1 @ [(loop, w_indexes st1)],
                       w_indexes := []\<rparr>
               else st1)"
  have e: "extract_candidates changed loop sieve queue count = Inr st"
    unfolding extract_candidates_def st0_def [symmetric] r(1) st_def by simp
  have q: "take n (verifyWorkQueue st) = queue"
    using r(2,3) by (auto simp: st_def st0_def n_def scan_inv_def)
  have "verifyWorkQueue st = take n (verifyWorkQueue st) @ drop n (verifyWorkQueue st)" by simp
  then have q2: "verifyWorkQueue st = queue @ drop n (verifyWorkQueue st)" using q by simp
  have w: "w_indexes st = []" by (auto simp: st_def)
  have l: "fst ` set (drop n (verifyWorkQueue st)) \<subseteq> {loop}"
    using r(2) by (auto simp: st_def scan_inv_def)
  have "job_indexes (drop n (verifyWorkQueue st)) = scan_indexes n st1"
    using r(2) by (auto simp: st_def scan_inv_def scan_indexes_def job_indexes_def)
  then have "job_indexes (drop n (verifyWorkQueue st)) =
      {of_nat j | j. j < 2 ^ 24 \<and> \<not> sieve_bit sieve j}" using r(4) by simp
  then show ?thesis using e q2 w l by blast
qed

lemma zero_candidate:
  "(0::u32) \<in> {of_nat j | j. j < 2 ^ 24 \<and> \<not> sieve_bit sieve j} \<longleftrightarrow> \<not> sieve_bit sieve 0"
proof
  assume "(0::u32) \<in> {of_nat j | j. j < 2 ^ 24 \<and> \<not> sieve_bit sieve j}"
  then obtain j where j: "(of_nat j :: u32) = 0" "j < 2 ^ 24" "\<not> sieve_bit sieve j" by auto
  have "unat (of_nat j :: u32) = j mod 2 ^ LENGTH(32)" by (rule unat_of_nat)
  then have "j = 0" using j(1,2) by simp
  then show "\<not> sieve_bit sieve 0" using j(3) by simp
next
  assume "\<not> sieve_bit sieve 0"
  then show "(0::u32) \<in> {of_nat j | j. j < 2 ^ 24 \<and> \<not> sieve_bit sieve j}"
    by (intro CollectI exI [of _ 0]) simp
qed

text \<open>
  Claim C5, as amended.  For every merged sieve bitmap, when no height change is observed
  during the scan, the scan returns and index 0 is among the indexes of the TYPE_CHECK jobs it
  pushes exactly when position 0 (bit 0 of word 0) is clear in the bitmap.  Nothing in the
  scan excludes position 0.
\<close>

theorem extract_candidates_index_0:
  assumes "\<forall>k. \<not> changed k"
  shows "\<exists>st jobs. extract_candidates changed loop sieve queue count = Inr st \<and>
           verifyWorkQueue st = queue @ jobs \<and>
           (0 \<in> job_indexes jobs \<longleftrightarrow> \<not> sieve_bit sieve 0)"
proof -
  from extract_candidates_result [OF assms, of loop sieve queue count]
  obtain st jobs where r: "extract_candidates changed loop sieve queue count = Inr st"
    "verifyWorkQueue st = queue @ jobs"
    "job_indexes jobs = {of_nat j | j. j < 2 ^ 24 \<and> \<not> sieve_bit sieve j}"
    by blast
  have "0 \<in> job_indexes jobs \<longleftrightarrow> \<not> sieve_bit sieve 0"
    unfolding r(3) by (rule zero_candidate)
  then show ?thesis using r(1,2) by blast
qed

theorem extract_candidates_index_0_witness:
  "\<exists>st. extract_candidates no_height_change 7 (sieve_set_bit clear_sieve 0) [] 0 = Inr st \<and>
        0 \<notin> job_indexes (verifyWorkQueue st)"
proof -
  have "\<forall>k. \<not> no_height_change k" by (simp add: no_height_change_def)
  from extract_candidates_index_0 [OF this, of 7 "sieve_set_bit clear_sieve 0" "[]" 0]
  show ?thesis by (auto simp: sieve_bit_def sieve_set_bit_def clear_sieve_def)
qed

text \<open>
  Claim C5 as stated fails: on the cleared bitmap (the state after memset, nothing marked)
  with no height change, the scan pushes a job that holds index 0.
\<close>

theorem extract_candidates_emits_index_0_counterexample:
  "\<not> isl (extract_candidates no_height_change 0 clear_sieve [] 0) \<and>
   0 \<in> job_indexes (verifyWorkQueue (projr (extract_candidates no_height_change 0 clear_sieve [] 0)))"
proof -
  have "\<forall>k. \<not> no_height_change k" by (simp add: no_height_change_def)
  from extract_candidates_result [OF this, of 0 clear_sieve "[]" 0]
  obtain st jobs where r: "extract_candidates no_height_change 0 clear_sieve [] 0 = Inr st"
    "verifyWorkQueue st = [] @ jobs"
    "job_indexes jobs = {of_nat j | j. j < 2 ^ 24 \<and> \<not> sieve_bit clear_sieve j}"
    by blast
  have "\<not> sieve_bit clear_sieve 0" by (simp add: sieve_bit_def clear_sieve_def)
  then have "0 \<in> job_indexes jobs" unfolding r(3) zero_candidate .
  then show ?thesis using r(1,2) by simp
qed

end
